theory Spec2Isabelle
  imports Main "HOL-Library.Word" "HOL-Library.Multiset"
begin

unbundle bit_operations_syntax

section \<open>Timestamps, resolved timestamps and sorter positions\<close>

text \<open>
  A timestamp (\<open>model.Ts\<close>) is a Go \<open>uint64\<close>; Go's \<open>int\<close> and \<open>int64\<close> are 64-bit
  words read as two's complement.
\<close>

type_synonym Ts = "64 word"
type_synonym go_int = "64 word"

datatype ResolvedMode = NormalResolvedMode | BatchResolvedMode

record ResolvedTs =
  Mode :: ResolvedMode
  Ts :: Ts
  BatchID :: "64 word"

text \<open>
  Modelled from the spec: \<open>model.ResolvedTs\<close> and its comparisons live in \<open>cdc/model\<close>,
  which is not among the sources. The spec (4.1): Less and Greater "return the natural
  total order over (commit-ts, batch-ts), treating normal mode as batch-ts = infinity".
  The key of a resolved timestamp is the pair compared; \<open>2 ^ 64\<close> stands for infinity, above
  every 64-bit batch id.
\<close>

definition rts_key :: "ResolvedTs \<Rightarrow> nat \<times> nat" where
  "rts_key r = (unat (Ts r),
     (case Mode r of NormalResolvedMode \<Rightarrow> 2 ^ 64 | BatchResolvedMode \<Rightarrow> unat (BatchID r)))"

definition NewResolvedTs :: "Ts \<Rightarrow> ResolvedTs" where
  "NewResolvedTs t = \<lparr>Mode = NormalResolvedMode, Ts = t, BatchID = - 1\<rparr>"

definition Less :: "ResolvedTs \<Rightarrow> ResolvedTs \<Rightarrow> bool" where
  "Less r r1 = (fst (rts_key r) < fst (rts_key r1)
     \<or> (fst (rts_key r) = fst (rts_key r1) \<and> snd (rts_key r) < snd (rts_key r1)))"

definition Greater :: "ResolvedTs \<Rightarrow> ResolvedTs \<Rightarrow> bool" where
  "Greater r r1 = Less r1 r"

definition EqualOrGreater :: "ResolvedTs \<Rightarrow> ResolvedTs \<Rightarrow> bool" where
  "EqualOrGreater r r1 = (\<not> Less r r1)"

record Position =
  StartTs :: Ts
  CommitTs :: Ts

text \<open>
  Modelled from the spec: \<open>sorter.Position\<close> and its \<open>Compare\<close> live in
  \<open>cdc/processor/sourcemanager/sorter\<close>, which is not among the sources. The spec (3):
  a position is "commit-ts + start-ts", "totally ordered". \<open>Compare\<close> returns a negative
  number, zero or a positive number; the order is by commit-ts, then by start-ts.
\<close>

definition Compare :: "Position \<Rightarrow> Position \<Rightarrow> int" where
  "Compare p q =
     (if CommitTs p < CommitTs q then - 1
      else if CommitTs p = CommitTs q then
        (if StartTs p < StartTs q then - 1
         else if StartTs p = StartTs q then 0
         else 1)
      else 1)"

text \<open>
  \<open>oracle.ExtractPhysical\<close> (an external library) reads the physical milliseconds of a
  timestamp: the spec (6) gives the composition \<open>(physicalMs << 18) | logical\<close>, so the
  physical part is the timestamp shifted right by 18 bits, as an \<open>int64\<close>.
\<close>

definition ExtractPhysical :: "Ts \<Rightarrow> go_int" where
  "ExtractPhysical ts = drop_bit 18 ts"

section \<open>The range event count ledger\<close>

record rangeEventCount =
  firstPos :: Position
  lastPos :: Position
  events :: go_int

definition newRangeEventCount :: "Position \<Rightarrow> go_int \<Rightarrow> rangeEventCount" where
  "newRangeEventCount pos n = \<lparr>firstPos = pos, lastPos = pos, events = n\<rparr>"

text \<open>
  \<open>updateRangeEventCounts\<close>: the ledger is the slice \<open>t.rangeEventCounts.c\<close>; the function
  returns the new slice. The comparison \<open>(currPhy - lastPhy) >= 1000\<close> is a signed
  comparison of \<open>int64\<close> values.
\<close>

definition updateRangeEventCounts ::
  "rangeEventCount list \<Rightarrow> rangeEventCount \<Rightarrow> rangeEventCount list" where
  "updateRangeEventCounts c eventCount =
     (let countsLen = length c in
      if countsLen = 0 then c @ [eventCount]
      else if Compare (lastPos (c ! (countsLen - 1))) (lastPos eventCount) < 0 then
        (let lastPhy = ExtractPhysical (CommitTs (firstPos (c ! (countsLen - 1))));
             currPhy = ExtractPhysical (CommitTs (lastPos eventCount))
         in if (1000 :: go_int) \<le>s currPhy - lastPhy then c @ [eventCount]
            else c[countsLen - 1 := (c ! (countsLen - 1))
                   \<lparr>lastPos := lastPos eventCount,
                    events := events (c ! (countsLen - 1)) + events eventCount\<rparr>])
      else c)"

text \<open>
  The physical-millisecond difference of two timestamps as an integer. Both physical parts
  are below \<open>2 ^ 46\<close>, so the \<open>int64\<close> subtraction of the source cannot wrap.
\<close>

definition phys_diff :: "Ts \<Rightarrow> Ts \<Rightarrow> int" where
  "phys_diff cur lst = int (unat (drop_bit 18 cur)) - int (unat (drop_bit 18 lst))"

text \<open>A position at a given physical millisecond (logical part and start-ts zero).\<close>

definition pos_ms :: "nat \<Rightarrow> Position" where
  "pos_ms ms = \<lparr>StartTs = 0, CommitTs = push_bit 18 (of_nat ms)\<rparr>"

section \<open>Binary search\<close>

text \<open>
  Go's \<open>sort.Search(n, f)\<close> (standard library): binary search for the smallest index
  \<open>i\<close> in \<open>[0, n)\<close> at which \<open>f i\<close> is true, \<open>n\<close> when there is none, assuming that
  \<open>f\<close> is false on a prefix and true on the rest. The loop keeps \<open>i \<le> j\<close> and halves
  the interval with \<open>h = (i + j) / 2\<close>.
\<close>

function Search_loop :: "(nat \<Rightarrow> bool) \<Rightarrow> nat \<Rightarrow> nat \<Rightarrow> nat" where
  "Search_loop f i j =
     (if i < j then
        (let h = (i + j) div 2 in
         if \<not> f h then Search_loop f (h + 1) j else Search_loop f i h)
      else i)"
  by pat_completeness auto
termination
  by (relation "measure (\<lambda>(f, i, j). j - i)") auto

declare Search_loop.simps [simp del]

definition Search :: "nat \<Rightarrow> (nat \<Rightarrow> bool) \<Rightarrow> nat" where
  "Search n f = Search_loop f 0 n"

text \<open>
  What the search loop establishes for its result \<open>r\<close> on the interval \<open>[i, j]\<close>: the
  predicate is false below \<open>r\<close> and true from \<open>r\<close> on.
\<close>

definition search_post :: "(nat \<Rightarrow> bool) \<Rightarrow> nat \<Rightarrow> nat \<Rightarrow> nat \<Rightarrow> nat \<Rightarrow> bool" where
  "search_post f n i j r =
     (i \<le> r \<and> r \<le> j \<and> (\<forall>k<r. \<not> f k) \<and> (\<forall>k. r \<le> k \<and> k < n \<longrightarrow> f k))"

section \<open>Cleaning the ledger\<close>

text \<open>
  \<open>cleanRangeEventCounts\<close> returns the new slice and the boolean. The events are summed
  with Go's \<open>int\<close> addition and compared with \<open>minEvents\<close> as signed values.
\<close>

definition cleanRangeEventCounts ::
  "rangeEventCount list \<Rightarrow> Position \<Rightarrow> go_int \<Rightarrow> rangeEventCount list \<times> bool" where
  "cleanRangeEventCounts c upperBound minEvents =
     (let idx = Search (length c) (\<lambda>i. Compare (lastPos (c ! i)) upperBound > 0) in
      if length c = 0 \<or> idx = 0 then (c, False)
      else
        (let count = foldl (\<lambda>count e. count + events e) 0 (take idx c);
             shouldClean = (minEvents \<le>s count)
         in if \<not> shouldClean then
              (drop (idx - 1) (c[idx - 1 := (c ! (idx - 1))\<lparr>events := count\<rparr>]), shouldClean)
            else (drop idx c, shouldClean)))"

text \<open>
  The ledger invariant of the spec (8, invariant 6): the records are ordered by last
  position, strictly ascending.
\<close>

definition ledger_sorted :: "rangeEventCount list \<Rightarrow> bool" where
  "ledger_sorted c = sorted_wrt (\<lambda>a b. Compare (lastPos a) (lastPos b) < 0) c"

text \<open>
  The index the spec names: the first index whose last position is above the upper bound,
  the length of the ledger when there is none.
\<close>

definition first_above :: "rangeEventCount list \<Rightarrow> Position \<Rightarrow> nat" where
  "first_above c upperBound =
     length (takeWhile (\<lambda>r. \<not> Compare (lastPos r) upperBound > 0) c)"

section \<open>Events, errors and the downstream table sink\<close>

text \<open>
  The declarations of \<open>model.RowChangedEvent\<close>, \<open>model.TableName\<close> and \<open>model.Column\<close> are
  not among the sources; the records keep the fields that the functions below read. A nil
  pointer is \<open>None\<close>.
\<close>

record Column =
  col_Name :: string
  col_Value :: string

record TableName =
  Schema :: string
  Table :: string
  TableID :: "64 word"
  IsPartition :: bool

record RowChangedEvent =
  row_StartTs :: Ts
  row_CommitTs :: Ts
  row_Table :: TableName
  Columns :: "Column list"
  PreColumns :: "Column list"

record PolymorphicEvent =
  pe_StartTs :: Ts
  pe_CRTs :: Ts
  Row :: "RowChangedEvent option"

text \<open>
  Go's \<open>error\<close> values. \<open>SinkInternalError\<close> is the error made by
  \<open>tablesink.NewSinkInternalError\<close>, carrying the message of the wrapped error; the other
  constructors stand for the context's error and for any error of a collaborator.
\<close>

datatype error = SinkInternalError string | ContextCanceled | OtherError string

text \<open>
  The downstream \<open>tablesink.TableSink\<close> is an interface: a sink is a state of some type
  \<open>'sink\<close> and the record holds its methods. A method that may change the sink returns the
  new state.
\<close>

record 'sink TableSink =
  AppendRowChangedEvents :: "'sink \<Rightarrow> RowChangedEvent list \<Rightarrow> 'sink"
  UpdateResolvedTs :: "'sink \<Rightarrow> ResolvedTs \<Rightarrow> 'sink \<times> error option"
  GetCheckpointTs :: "'sink \<Rightarrow> ResolvedTs"
  GetLastSyncedTs :: "'sink \<Rightarrow> Ts"
  AsyncClose :: "'sink \<Rightarrow> 'sink \<times> bool"
  Close :: "'sink \<Rightarrow> 'sink"
  CheckHealth :: "'sink \<Rightarrow> error option"

section \<open>The table sink wrapper\<close>

text \<open>
  Modelled from the spec: \<open>tablepb.TableState\<close> is declared outside the sources; the spec
  (3) lists the states Preparing, Prepared, Replicating, Stopping, Stopped.
\<close>

datatype TableState =
  TableStatePreparing | TableStatePrepared | TableStateReplicating
  | TableStateStopping | TableStateStopped

text \<open>
  The wrapper struct. The nested struct \<open>tableSink\<close> contributes the fields \<open>tableSink_s\<close>
  (the sink, \<open>None\<close> when nil) and \<open>tableSink_version\<close>, its nested \<open>state\<close> the fields
  \<open>state_*\<close>. Wall-clock instants (\<open>time.Time\<close>) are natural numbers. The fields used
  only for logging (\<open>id\<close>, \<open>changefeed\<close>, \<open>span\<close>) are left out; the two function fields
  \<open>tableSinkCreator\<close> and \<open>genReplicateTs\<close> are external, and what they return is an
  argument of the operation that calls them.
\<close>

record 'sink tableSinkWrapper =
  tableSink_s :: "'sink option"
  tableSink_version :: "64 word"
  state_advanced :: nat
  state_resolvedTs :: ResolvedTs
  state_checkpointTs :: ResolvedTs
  state_lastSyncedTs :: Ts
  table_state :: TableState
  startTs :: Ts
  barrierTs :: Ts
  receivedSorterResolvedTs :: Ts
  replicateTs :: Ts
  lastCleanTime :: nat
  rangeEventCounts :: "rangeEventCount list"

definition newTableSinkWrapper :: "TableState \<Rightarrow> Ts \<Rightarrow> nat \<Rightarrow> 'sink tableSinkWrapper" where
  "newTableSinkWrapper st start_ts now =
     \<lparr>tableSink_s = None, tableSink_version = 0, state_advanced = now,
      state_resolvedTs = NewResolvedTs start_ts, state_checkpointTs = NewResolvedTs start_ts,
      state_lastSyncedTs = 0, table_state = st, startTs = start_ts, barrierTs = start_ts,
      receivedSorterResolvedTs = start_ts, replicateTs = 0, lastCleanTime = 0,
      rangeEventCounts = []\<rparr>"

text \<open>
  \<open>start\<close>: \<open>Inl\<close> is the panic of a second start; otherwise the wrapper and the error
  returned. \<open>gen\<close> is what \<open>genReplicateTs\<close> returns; the assignment to \<open>replicateTs\<close>
  happens before the error is looked at, as in the source.
\<close>

definition start ::
  "'sink tableSinkWrapper \<Rightarrow> Ts \<Rightarrow> Ts \<times> error option \<Rightarrow> nat
    \<Rightarrow> string + ('sink tableSinkWrapper \<times> error option)" where
  "start t start_ts gen now =
     (if replicateTs t \<noteq> 0 then Inl ''The table sink has already started''
      else
        (let t1 = t\<lparr>replicateTs := fst gen\<rparr> in
         case snd gen of
           Some err \<Rightarrow> Inr (t1, Some err)
         | None \<Rightarrow>
             (let old = receivedSorterResolvedTs t1;
                  t2 = (if start_ts \<le> old then t1 else t1\<lparr>receivedSorterResolvedTs := start_ts\<rparr>);
                  t3 = (if Greater (NewResolvedTs start_ts) (state_checkpointTs t2)
                        then t2\<lparr>state_checkpointTs := NewResolvedTs start_ts,
                                state_resolvedTs := NewResolvedTs start_ts,
                                state_advanced := now\<rparr>
                        else t2)
              in Inr (t3\<lparr>table_state := TableStateReplicating\<rparr>, None))))"

definition appendRowChangedEvents ::
  "'sink TableSink \<Rightarrow> 'sink tableSinkWrapper \<Rightarrow> RowChangedEvent list
    \<Rightarrow> 'sink tableSinkWrapper \<times> error option" where
  "appendRowChangedEvents I t evs =
     (case tableSink_s t of
        None \<Rightarrow> (t, Some (SinkInternalError ''table sink cleared''))
      | Some s \<Rightarrow> (t\<lparr>tableSink_s := Some (AppendRowChangedEvents I s evs)\<rparr>, None))"

definition updateBarrierTs :: "'sink tableSinkWrapper \<Rightarrow> Ts \<Rightarrow> 'sink tableSinkWrapper" where
  "updateBarrierTs t ts = (if ts \<le> barrierTs t then t else t\<lparr>barrierTs := ts\<rparr>)"

definition updateReceivedSorterResolvedTs ::
  "'sink tableSinkWrapper \<Rightarrow> Ts \<Rightarrow> 'sink tableSinkWrapper" where
  "updateReceivedSorterResolvedTs t ts =
     (if ts \<le> receivedSorterResolvedTs t then t
      else
        (let t1 = t\<lparr>receivedSorterResolvedTs := ts\<rparr> in
         if table_state t1 = TableStatePreparing then t1\<lparr>table_state := TableStatePrepared\<rparr>
         else t1))"

definition updateResolvedTs ::
  "'sink TableSink \<Rightarrow> 'sink tableSinkWrapper \<Rightarrow> ResolvedTs
    \<Rightarrow> 'sink tableSinkWrapper \<times> error option" where
  "updateResolvedTs I t ts =
     (case tableSink_s t of
        None \<Rightarrow> (t, Some (SinkInternalError ''table sink cleared''))
      | Some s \<Rightarrow>
          (let t1 = t\<lparr>state_resolvedTs := ts\<rparr>;
               r = UpdateResolvedTs I s ts
           in (t1\<lparr>tableSink_s := Some (fst r)\<rparr>, snd r)))"

definition getLastSyncedTs :: "'sink TableSink \<Rightarrow> 'sink tableSinkWrapper \<Rightarrow> Ts" where
  "getLastSyncedTs I t =
     (case tableSink_s t of Some s \<Rightarrow> GetLastSyncedTs I s | None \<Rightarrow> state_lastSyncedTs t)"

definition getCheckpointTs ::
  "'sink TableSink \<Rightarrow> 'sink tableSinkWrapper \<Rightarrow> nat \<Rightarrow> 'sink tableSinkWrapper \<times> ResolvedTs" where
  "getCheckpointTs I t now =
     (let t1 =
        (case tableSink_s t of
           Some s \<Rightarrow>
             (let checkpointTs = GetCheckpointTs I s in
              if Less (state_checkpointTs t) checkpointTs
              then t\<lparr>state_checkpointTs := checkpointTs, state_advanced := now\<rparr>
              else if \<not> Less checkpointTs (state_resolvedTs t) then t\<lparr>state_advanced := now\<rparr>
              else t)
         | None \<Rightarrow> t)
      in (t1, state_checkpointTs t1))"

definition getUpperBoundTs :: "'sink tableSinkWrapper \<Rightarrow> Ts" where
  "getUpperBoundTs t =
     (let resolvedTs = receivedSorterResolvedTs t; barrier = barrierTs t in
      if resolvedTs > barrier then barrier else resolvedTs)"

definition markAsClosing :: "'sink tableSinkWrapper \<Rightarrow> 'sink tableSinkWrapper" where
  "markAsClosing t =
     (if table_state t = TableStateStopped then t else t\<lparr>table_state := TableStateStopping\<rparr>)"

definition isReady ::
  "'sink tableSinkWrapper \<Rightarrow> 'sink option \<times> 64 word \<Rightarrow> nat \<Rightarrow> 'sink tableSinkWrapper \<times> bool" where
  "isReady t created now =
     (case tableSink_s t of
        None \<Rightarrow>
          (let t1 = t\<lparr>tableSink_s := fst created, tableSink_version := snd created\<rparr> in
           if tableSink_s t1 \<noteq> None then (t1\<lparr>state_advanced := now\<rparr>, True)
           else (t1, False))
      | Some s \<Rightarrow> (t, True))"

definition clear :: "'sink TableSink \<Rightarrow> 'sink tableSinkWrapper \<Rightarrow> nat \<Rightarrow> 'sink tableSinkWrapper" where
  "clear I t now =
     (case tableSink_s t of
        None \<Rightarrow> t
      | Some s \<Rightarrow>
          (let checkpointTs = GetCheckpointTs I s;
               t1 = (if Less (state_checkpointTs t) checkpointTs
                     then t\<lparr>state_checkpointTs := checkpointTs\<rparr> else t)
           in t1\<lparr>state_resolvedTs := checkpointTs,
                 state_lastSyncedTs := GetLastSyncedTs I s,
                 state_advanced := now,
                 tableSink_s := None,
                 tableSink_version := 0\<rparr>))"

definition asyncClose ::
  "'sink TableSink \<Rightarrow> 'sink tableSinkWrapper \<Rightarrow> nat \<Rightarrow> 'sink tableSinkWrapper \<times> bool" where
  "asyncClose I t now =
     (case tableSink_s t of
        None \<Rightarrow> (t, True)
      | Some s \<Rightarrow>
          (let r = AsyncClose I s;
               t1 = t\<lparr>tableSink_s := Some (fst r)\<rparr>;
               closed = snd r
           in if closed then (clear I t1 now, closed) else (t1, closed)))"

definition asyncStop ::
  "'sink TableSink \<Rightarrow> 'sink tableSinkWrapper \<Rightarrow> nat \<Rightarrow> 'sink tableSinkWrapper \<times> bool" where
  "asyncStop I t now =
     (let r = asyncClose I (markAsClosing t) now in
      if snd r then ((fst r)\<lparr>table_state := TableStateStopped\<rparr>, True) else (fst r, False))"

definition Close_wrapper :: "'sink TableSink \<Rightarrow> 'sink tableSinkWrapper \<Rightarrow> 'sink tableSinkWrapper" where
  "Close_wrapper I t =
     (case tableSink_s t of None \<Rightarrow> t | Some s \<Rightarrow> t\<lparr>tableSink_s := Some (Close I s)\<rparr>)"

definition closeAndClear ::
  "'sink TableSink \<Rightarrow> 'sink tableSinkWrapper \<Rightarrow> nat \<Rightarrow> 'sink tableSinkWrapper" where
  "closeAndClear I t now = clear I (Close_wrapper I t) now"

definition checkTableSinkHealth :: "'sink TableSink \<Rightarrow> 'sink tableSinkWrapper \<Rightarrow> error option" where
  "checkTableSinkHealth I t =
     (case tableSink_s t of Some s \<Rightarrow> CheckHealth I s | None \<Rightarrow> None)"

definition restart ::
  "'sink tableSinkWrapper \<Rightarrow> Ts \<times> error option \<Rightarrow> 'sink tableSinkWrapper \<times> error option" where
  "restart t gen = (t\<lparr>replicateTs := fst gen\<rparr>, snd gen)"

text \<open>
  \<open>sinkMaybeStuck\<close>: \<open>time.Since(advanced) > stuckCheck\<close> with instants and durations as
  natural numbers (the clock does not run backwards: \<open>now\<close> is not before \<open>advanced\<close>).
\<close>

definition sinkMaybeStuck ::
  "'sink TableSink \<Rightarrow> 'sink tableSinkWrapper \<Rightarrow> nat \<Rightarrow> nat
    \<Rightarrow> 'sink tableSinkWrapper \<times> (bool \<times> 64 word)" where
  "sinkMaybeStuck I t stuckCheck now =
     (let t1 = fst (getCheckpointTs I t now);
          version = tableSink_version t1;
          advanced = state_advanced t1
      in if version > 0 \<and> now - advanced > stuckCheck then (t1, (True, version))
         else (t1, (False, 0)))"

subsection \<open>Sequences of wrapper operations\<close>

text \<open>
  One call on a wrapper, with what its external collaborators answer (the instant read from
  the clock, the result of \<open>genReplicateTs\<close>, the result of the sink creator).
  \<open>OpSinkProgress\<close> is not a call: between two calls the downstream sink, when there is
  one, may move to any other state on its own.
\<close>

datatype 'sink wrapper_op =
    OpStart Ts "Ts \<times> error option" nat
  | OpAppendRowChangedEvents "RowChangedEvent list"
  | OpUpdateBarrierTs Ts
  | OpUpdateReceivedSorterResolvedTs Ts
  | OpUpdateResolvedTs ResolvedTs
  | OpGetCheckpointTs nat
  | OpIsReady "'sink option \<times> 64 word" nat
  | OpAsyncClose nat
  | OpAsyncStop nat
  | OpClear nat
  | OpCloseAndClear nat
  | OpRestart "Ts \<times> error option"
  | OpSinkMaybeStuck nat nat
  | OpSinkProgress 'sink

text \<open>
  The effect of one operation: the panic message, or the new wrapper together with the
  values that \<open>getCheckpointTs\<close> returned to its caller during the operation.
\<close>

fun wrapper_step ::
  "'sink TableSink \<Rightarrow> 'sink tableSinkWrapper \<Rightarrow> 'sink wrapper_op
    \<Rightarrow> string + ('sink tableSinkWrapper \<times> ResolvedTs list)" where
  "wrapper_step I t (OpStart ts gen now) =
     (case start t ts gen now of Inl p \<Rightarrow> Inl p | Inr r \<Rightarrow> Inr (fst r, []))"
| "wrapper_step I t (OpAppendRowChangedEvents evs) = Inr (fst (appendRowChangedEvents I t evs), [])"
| "wrapper_step I t (OpUpdateBarrierTs ts) = Inr (updateBarrierTs t ts, [])"
| "wrapper_step I t (OpUpdateReceivedSorterResolvedTs ts) =
     Inr (updateReceivedSorterResolvedTs t ts, [])"
| "wrapper_step I t (OpUpdateResolvedTs ts) = Inr (fst (updateResolvedTs I t ts), [])"
| "wrapper_step I t (OpGetCheckpointTs now) =
     (let r = getCheckpointTs I t now in Inr (fst r, [snd r]))"
| "wrapper_step I t (OpIsReady created now) = Inr (fst (isReady t created now), [])"
| "wrapper_step I t (OpAsyncClose now) = Inr (fst (asyncClose I t now), [])"
| "wrapper_step I t (OpAsyncStop now) = Inr (fst (asyncStop I t now), [])"
| "wrapper_step I t (OpClear now) = Inr (clear I t now, [])"
| "wrapper_step I t (OpCloseAndClear now) = Inr (closeAndClear I t now, [])"
| "wrapper_step I t (OpRestart gen) = Inr (fst (restart t gen), [])"
| "wrapper_step I t (OpSinkMaybeStuck stuckCheck now) =
     Inr (fst (sinkMaybeStuck I t stuckCheck now), [])"
| "wrapper_step I t (OpSinkProgress s') =
     Inr ((case tableSink_s t of None \<Rightarrow> t | Some s \<Rightarrow> t\<lparr>tableSink_s := Some s'\<rparr>), [])"

text \<open>
  The values returned by the calls of \<open>getCheckpointTs\<close> in a sequence of operations, in
  the order of the calls. A panic ends the process and the sequence.
\<close>

fun observedCheckpoints ::
  "'sink TableSink \<Rightarrow> 'sink tableSinkWrapper \<Rightarrow> 'sink wrapper_op list \<Rightarrow> ResolvedTs list" where
  "observedCheckpoints I t [] = []"
| "observedCheckpoints I t (op # ops) =
     (case wrapper_step I t op of
        Inl p \<Rightarrow> []
      | Inr r \<Rightarrow> snd r @ observedCheckpoints I (fst r) ops)"

subsection \<open>A downstream sink for the examples\<close>

text \<open>
  A sink whose answers are read from its state: the checkpoint and the last synced
  timestamp it reports, the error its \<open>UpdateResolvedTs\<close> returns, and whether it has been
  closed. It is used to run the wrapper on concrete inputs.
\<close>

record simpleSink =
  ss_checkpointTs :: ResolvedTs
  ss_lastSyncedTs :: Ts
  ss_resolvedTs :: ResolvedTs
  ss_updateError :: "error option"
  ss_closed :: bool

definition simpleSink_methods :: "simpleSink TableSink" where
  "simpleSink_methods =
     \<lparr>AppendRowChangedEvents = (\<lambda>s evs. s),
      UpdateResolvedTs = (\<lambda>s ts. (s\<lparr>ss_resolvedTs := ts\<rparr>, ss_updateError s)),
      GetCheckpointTs = ss_checkpointTs,
      GetLastSyncedTs = ss_lastSyncedTs,
      AsyncClose = (\<lambda>s. (s\<lparr>ss_closed := True\<rparr>, True)),
      Close = (\<lambda>s. s\<lparr>ss_closed := True\<rparr>),
      CheckHealth = (\<lambda>s. None)\<rparr>"

definition simpleSink_at :: "Ts \<Rightarrow> simpleSink" where
  "simpleSink_at ts =
     \<lparr>ss_checkpointTs = NewResolvedTs ts, ss_lastSyncedTs = 0,
      ss_resolvedTs = NewResolvedTs ts, ss_updateError = None, ss_closed = False\<rparr>"

section \<open>Filtering polymorphic events\<close>

text \<open>
  \<open>handleRowChangedEvents\<close>: the loop over the events with its two accumulators, the size
  (a Go \<open>int\<close>) and the slice of rows. An event is an optional pointer. The method
  \<open>ApproximateBytes\<close> of a row is declared outside the sources and is a parameter. The
  arguments \<open>changefeed\<close> and \<open>span\<close> are used for logging only. The final conversion
  \<open>uint64(size)\<close> keeps the 64 bits.
\<close>

fun handleRowChangedEvents_loop ::
  "(RowChangedEvent \<Rightarrow> go_int) \<Rightarrow> go_int \<Rightarrow> RowChangedEvent list
    \<Rightarrow> PolymorphicEvent option list \<Rightarrow> RowChangedEvent list \<times> 64 word" where
  "handleRowChangedEvents_loop ApproximateBytes sz rowChangedEvents [] =
     (rowChangedEvents, sz)"
| "handleRowChangedEvents_loop ApproximateBytes sz rowChangedEvents (e # es) =
     (case e of
        None \<Rightarrow> handleRowChangedEvents_loop ApproximateBytes sz rowChangedEvents es
      | Some pe \<Rightarrow>
          (case Row pe of
             None \<Rightarrow> handleRowChangedEvents_loop ApproximateBytes sz rowChangedEvents es
           | Some rowEvent \<Rightarrow>
               if length (Columns rowEvent) = 0 \<and> length (PreColumns rowEvent) = 0
               then handleRowChangedEvents_loop ApproximateBytes sz rowChangedEvents es
               else handleRowChangedEvents_loop ApproximateBytes
                      (sz + ApproximateBytes rowEvent) (rowChangedEvents @ [rowEvent]) es))"

definition handleRowChangedEvents ::
  "(RowChangedEvent \<Rightarrow> go_int) \<Rightarrow> PolymorphicEvent option list
    \<Rightarrow> RowChangedEvent list \<times> 64 word" where
  "handleRowChangedEvents ApproximateBytes evs =
     handleRowChangedEvents_loop ApproximateBytes 0 [] evs"

text \<open>
  The row an event contributes, in the words of the claim: the event is non-nil, its row is
  non-nil, and the row has at least one column or pre-column.
\<close>

definition emitted_row :: "PolymorphicEvent option \<Rightarrow> RowChangedEvent option" where
  "emitted_row e =
     (case e of
        None \<Rightarrow> None
      | Some pe \<Rightarrow>
          (case Row pe of
             None \<Rightarrow> None
           | Some r \<Rightarrow> if Columns r \<noteq> [] \<or> PreColumns r \<noteq> [] then Some r else None))"

section \<open>The event groups of the consumer\<close>

record eventsGroup =
  group_events :: "RowChangedEvent list"

definition newEventsGroup :: eventsGroup where
  "newEventsGroup = \<lparr>group_events = []\<rparr>"

definition Append :: "eventsGroup \<Rightarrow> RowChangedEvent \<Rightarrow> eventsGroup" where
  "Append g e = g\<lparr>group_events := group_events g @ [e]\<rparr>"






text \<open>A row event of a table \<open>t\<close> with one column.\<close>

definition row_at :: "Ts \<Rightarrow> Ts \<Rightarrow> RowChangedEvent" where
  "row_at start_ts commit_ts =
     \<lparr>row_StartTs = start_ts, row_CommitTs = commit_ts,
      row_Table = \<lparr>Schema = ''test'', Table = ''t'', TableID = 0, IsPartition = False\<rparr>,
      Columns = [\<lparr>col_Name = ''id'', col_Value = ''1''\<rparr>], PreColumns = []\<rparr>"

section \<open>The generator of fake table ids\<close>

text \<open>
  \<open>fmt.Sprintf\<close> with the verb \<open>%d\<close> on an \<open>int64\<close>: the decimal digits, most significant
  first, after a minus sign for a negative number.
\<close>

definition digit_char :: "nat \<Rightarrow> char" where
  "digit_char d = char_of (48 + d)"

function digits10 :: "nat \<Rightarrow> string" where
  "digits10 n = (if n < 10 then [digit_char n] else digits10 (n div 10) @ [digit_char (n mod 10)])"
  by pat_completeness auto
termination
  by (relation "measure id") auto

declare digits10.simps [simp del]

definition format_d :: "64 word \<Rightarrow> string" where
  "format_d w =
     (if sint w < 0 then CHR ''-'' # digits10 (nat (- sint w)) else digits10 (nat (sint w)))"

text \<open>
  The key of a table in the generator's map. \<open>quotes.QuoteSchema\<close> lives in \<open>pkg/quotes\<close>,
  which is not among the sources: it is the parameter \<open>QuoteSchema\<close>. A partition other than
  0 adds the suffix made by \<open>fmt.Sprintf("%s.`%d`", key, partition)\<close>.
\<close>

definition fakeTableKey ::
  "(string \<Rightarrow> string \<Rightarrow> string) \<Rightarrow> string \<Rightarrow> string \<Rightarrow> 64 word \<Rightarrow> string" where
  "fakeTableKey QuoteSchema schema table partition_id =
     (let key = QuoteSchema schema table in
      if partition_id \<noteq> 0 then key @ ''.`'' @ format_d partition_id @ ''`'' else key)"

record fakeTableIDGenerator =
  tableIDs :: "string \<rightharpoonup> 64 word"
  currentTableID :: "64 word"

text \<open>The generator as \<open>NewConsumer\<close> makes it: an empty map and the counter 0.\<close>

definition newFakeTableIDGenerator :: fakeTableIDGenerator where
  "newFakeTableIDGenerator = \<lparr>tableIDs = Map.empty, currentTableID = 0\<rparr>"

definition generateFakeTableID ::
  "(string \<Rightarrow> string \<Rightarrow> string) \<Rightarrow> fakeTableIDGenerator \<Rightarrow> string \<Rightarrow> string \<Rightarrow> 64 word
    \<Rightarrow> 64 word \<times> fakeTableIDGenerator" where
  "generateFakeTableID QuoteSchema g schema table partition_id =
     (let key = fakeTableKey QuoteSchema schema table partition_id in
      case tableIDs g key of
        Some tableID \<Rightarrow> (tableID, g)
      | None \<Rightarrow>
          (let g1 = g\<lparr>currentTableID := currentTableID g + 1\<rparr>;
               g2 = g1\<lparr>tableIDs := (tableIDs g1)(key \<mapsto> currentTableID g1)\<rparr>
           in (currentTableID g2, g2)))"

text \<open>A sequence of calls, each with its (schema, table, partition), and the ids returned.\<close>

fun generateFakeTableIDs ::
  "(string \<Rightarrow> string \<Rightarrow> string) \<Rightarrow> fakeTableIDGenerator \<Rightarrow> (string \<times> string \<times> 64 word) list
    \<Rightarrow> 64 word list \<times> fakeTableIDGenerator" where
  "generateFakeTableIDs QuoteSchema g [] = ([], g)"
| "generateFakeTableIDs QuoteSchema g (r # rs) =
     (let a = generateFakeTableID QuoteSchema g (fst r) (fst (snd r)) (snd (snd r));
          b = generateFakeTableIDs QuoteSchema (snd a) rs
      in (fst a # fst b, snd b))"

text \<open>
  What the generator needs from the quoting: a quoted name, possibly followed by more text
  that does not begin with a backtick, determines the schema and the table.
\<close>

definition QuoteSchema_unambiguous :: "(string \<Rightarrow> string \<Rightarrow> string) \<Rightarrow> bool" where
  "QuoteSchema_unambiguous QuoteSchema =
     (\<forall>s t x s' t' y.
        QuoteSchema s t @ x = QuoteSchema s' t' @ y
        \<and> (x = [] \<or> hd x \<noteq> CHR ''`'') \<and> (y = [] \<or> hd y \<noteq> CHR ''`'')
        \<longrightarrow> s = s' \<and> t = t')"

text \<open>
  The backtick quoting of identifiers: a backtick inside a name is doubled, and the schema
  and the table are wrapped in backticks and joined by a dot. It is used to run the
  generator on concrete names.
\<close>

fun EscapeName :: "string \<Rightarrow> string" where
  "EscapeName [] = []"
| "EscapeName (c # cs) = (if c = CHR ''`'' then ''``'' else [c]) @ EscapeName cs"

definition backtick_QuoteSchema :: "string \<Rightarrow> string \<Rightarrow> string" where
  "backtick_QuoteSchema schema table =
     ''`'' @ EscapeName schema @ ''`.`'' @ EscapeName table @ ''`''"

text \<open>
  The invariant of the generator after at most \<open>n\<close> calls: the counter is at most \<open>n\<close>,
  every id in the map lies between 1 and the counter, and no id is given to two keys.
\<close>

definition generator_inv :: "nat \<Rightarrow> fakeTableIDGenerator \<Rightarrow> bool" where
  "generator_inv n g =
     (unat (currentTableID g) \<le> n
      \<and> (\<forall>k v. tableIDs g k = Some v \<longrightarrow> 0 < unat v \<and> unat v \<le> unat (currentTableID g))
      \<and> (\<forall>k k' v. tableIDs g k = Some v \<and> tableIDs g k' = Some v \<longrightarrow> k = k'))"

section \<open>The consumer: flushing and the driver loop\<close>

text \<open>
  A DDL event (declared in \<open>cdc/model\<close>, outside the sources): the driver reads its
  commit-ts only.
\<close>

record DDLEvent =
  ddl_StartTs :: Ts
  ddl_CommitTs :: Ts
  ddl_Query :: string

text \<open>
  \<open>partitionSinks\<close>. The two \<open>sync.Map\<close>s: \<open>tablesCommitTsMap\<close> is a list of (table-id,
  last committed ts) entries, in the order in which \<open>Range\<close> visits them; \<open>tableSinksMap\<close>
  maps a table-id to the state of its table sink.
\<close>

record 'sink partitionSinks =
  tablesCommitTsMap :: "(64 word \<times> Ts) list"
  tableSinksMap :: "64 word \<rightharpoonup> 'sink"
  resolvedTs :: Ts

text \<open>
  One pass of \<open>tablesCommitTsMap.Range\<close> in \<open>syncFlushRowChangedEvents\<close>: the callback on
  each entry. The value of the entry is not read. The result is the panic message, or the
  table sinks after the pass, the flag \<open>flushedResolvedTs\<close>, and the calls of
  \<open>UpdateResolvedTs\<close> made: table-id, argument and returned error. A callback that
  returns false ends the pass.
\<close>

fun flushRange ::
  "'sink TableSink \<Rightarrow> ResolvedTs \<Rightarrow> (64 word \<times> Ts) list \<Rightarrow> (64 word \<rightharpoonup> 'sink) \<Rightarrow> bool
    \<Rightarrow> string + ((64 word \<rightharpoonup> 'sink) \<times> bool \<times> (64 word \<times> ResolvedTs \<times> error option) list)"
  where
  "flushRange I rts [] m flushedResolvedTs = Inr (m, flushedResolvedTs, [])"
| "flushRange I rts (kv # rest) m flushedResolvedTs =
     (let tableID = fst kv in
      case m tableID of
        None \<Rightarrow> Inl ''Table sink not found''
      | Some tableSink \<Rightarrow>
          (let r = UpdateResolvedTs I tableSink rts;
               m1 = m(tableID \<mapsto> fst r)
           in case snd r of
                Some err \<Rightarrow> Inr (m1, flushedResolvedTs, [(tableID, rts, Some err)])
              | None \<Rightarrow>
                  (case flushRange I rts rest m1
                          (if \<not> EqualOrGreater (GetCheckpointTs I (fst r)) rts then False
                           else flushedResolvedTs) of
                     Inl p \<Rightarrow> Inl p
                   | Inr res \<Rightarrow>
                       Inr (fst res, fst (snd res), (tableID, rts, None) # snd (snd res)))))"

text \<open>
  The outcome of a call of \<open>syncFlushRowChangedEvents\<close>: a panic, or the returned error
  with the partition's sinks, the number of polls of the context so far, and the calls of
  \<open>UpdateResolvedTs\<close> made.
\<close>

datatype 'sink flush_result =
    FlushPanic string
  | FlushReturn "error option" "'sink partitionSinks" nat
      "(64 word \<times> ResolvedTs \<times> error option) list"

text \<open>
  \<open>syncFlushRowChangedEvents\<close>. The loop may run forever: it runs on fuel, one unit for
  each pass, and \<open>None\<close> means that the fuel did not suffice. The context is a sequence of
  answers to \<open>ctx.Done()\<close>: \<open>ctx k\<close> is the answer to poll number \<open>k\<close>.
\<close>

fun syncFlushRowChangedEvents ::
  "nat \<Rightarrow> 'sink TableSink \<Rightarrow> (nat \<Rightarrow> bool) \<Rightarrow> nat \<Rightarrow> 'sink partitionSinks \<Rightarrow> Ts
    \<Rightarrow> 'sink flush_result option" where
  "syncFlushRowChangedEvents 0 I ctx k sink ts = None"
| "syncFlushRowChangedEvents (Suc n) I ctx k sink ts =
     (if ctx k then Some (FlushReturn (Some ContextCanceled) sink (Suc k) [])
      else
        (case flushRange I (NewResolvedTs ts) (tablesCommitTsMap sink) (tableSinksMap sink) True of
           Inl p \<Rightarrow> Some (FlushPanic p)
         | Inr res \<Rightarrow>
             (let sink1 = sink\<lparr>tableSinksMap := fst res\<rparr> in
              if fst (snd res) then Some (FlushReturn None sink1 (Suc k) (snd (snd res)))
              else
                (case syncFlushRowChangedEvents n I ctx (Suc k) sink1 ts of
                   None \<Rightarrow> None
                 | Some (FlushPanic p) \<Rightarrow> Some (FlushPanic p)
                 | Some (FlushReturn err sink2 k2 calls) \<Rightarrow>
                     Some (FlushReturn err sink2 k2 (snd (snd res) @ calls))))))"

text \<open>One pass of calls as the code makes them when no call fails.\<close>

definition flush_calls ::
  "'sink partitionSinks \<Rightarrow> Ts \<Rightarrow> (64 word \<times> ResolvedTs \<times> error option) list" where
  "flush_calls sink ts = map (\<lambda>kv. (fst kv, NewResolvedTs ts, None)) (tablesCommitTsMap sink)"

text \<open>The calls the spec describes: the minimum of the target and the last committed ts.\<close>

definition flush_calls_min ::
  "'sink partitionSinks \<Rightarrow> Ts \<Rightarrow> (64 word \<times> ResolvedTs \<times> error option) list" where
  "flush_calls_min sink ts =
     map (\<lambda>kv. (fst kv, NewResolvedTs (min ts (snd kv)), None)) (tablesCommitTsMap sink)"

text \<open>
  The consumer, with the fields the driver loop uses. \<open>ddlSink.WriteDDLEvent\<close> is external:
  its answer is the parameter \<open>WriteDDLEvent\<close>.
\<close>

record 'sink Consumer =
  ddlList :: "DDLEvent list"
  sinks :: "'sink partitionSinks list"
  globalResolvedTs :: Ts

definition getFrontDDL :: "'sink Consumer \<Rightarrow> DDLEvent option" where
  "getFrontDDL c = (if length (ddlList c) > 0 then Some (ddlList c ! 0) else None)"

definition popDDL :: "'sink Consumer \<Rightarrow> 'sink Consumer" where
  "popDDL c = (if length (ddlList c) > 0 then c\<lparr>ddlList := drop 1 (ddlList c)\<rparr> else c)"

definition getMinPartitionResolvedTs :: "'sink Consumer \<Rightarrow> Ts" where
  "getMinPartitionResolvedTs c =
     foldl (\<lambda>result sink. let a = resolvedTs sink in if a < result then a else result)
       (- 1) (sinks c)"

text \<open>
  \<open>forEachSink\<close> with the flush as its callback, as the driver calls it: the partitions in
  order, stopping at the first error.
\<close>

datatype 'sink each_result =
    EachPanic string
  | EachReturn "error option" "'sink partitionSinks list" nat

fun forEachSink_flush ::
  "nat \<Rightarrow> 'sink TableSink \<Rightarrow> (nat \<Rightarrow> bool) \<Rightarrow> nat \<Rightarrow> 'sink partitionSinks list \<Rightarrow> Ts
    \<Rightarrow> 'sink each_result option" where
  "forEachSink_flush n I ctx k [] ts = Some (EachReturn None [] k)"
| "forEachSink_flush n I ctx k (sink # rest) ts =
     (case syncFlushRowChangedEvents n I ctx k sink ts of
        None \<Rightarrow> None
      | Some (FlushPanic p) \<Rightarrow> Some (EachPanic p)
      | Some (FlushReturn (Some err) sink1 k1 calls) \<Rightarrow> Some (EachReturn (Some err) (sink1 # rest) k1)
      | Some (FlushReturn None sink1 k1 calls) \<Rightarrow>
          (case forEachSink_flush n I ctx k1 rest ts of
             None \<Rightarrow> None
           | Some (EachPanic p) \<Rightarrow> Some (EachPanic p)
           | Some (EachReturn err rest1 k2) \<Rightarrow> Some (EachReturn err (sink1 # rest1) k2)))"

text \<open>
  One iteration of the loop of \<open>Consumer.Run\<close>, from the \<open>select\<close> to the final flush:
  a panic, a return with an error, or the consumer for the next iteration. \<open>None\<close>: a flush
  did not return within the fuel.
\<close>

datatype 'sink tick_result =
    TickPanic string
  | TickReturn error
  | TickContinue "'sink Consumer" nat

definition Run_update_global ::
  "nat \<Rightarrow> 'sink TableSink \<Rightarrow> (nat \<Rightarrow> bool) \<Rightarrow> nat \<Rightarrow> 'sink Consumer \<Rightarrow> Ts
    \<Rightarrow> 'sink tick_result option" where
  "Run_update_global n I ctx k c minPartitionResolvedTs =
     (if globalResolvedTs c > minPartitionResolvedTs then Some (TickPanic ''global ResolvedTs fallback'')
      else
        (let c1 = (if globalResolvedTs c < minPartitionResolvedTs
                   then c\<lparr>globalResolvedTs := minPartitionResolvedTs\<rparr> else c)
         in case forEachSink_flush n I ctx k (sinks c1) (globalResolvedTs c1) of
              None \<Rightarrow> None
            | Some (EachPanic p) \<Rightarrow> Some (TickPanic p)
            | Some (EachReturn (Some err) sinks1 k1) \<Rightarrow> Some (TickReturn err)
            | Some (EachReturn None sinks1 k1) \<Rightarrow> Some (TickContinue (c1\<lparr>sinks := sinks1\<rparr>) k1)))"

definition Run_tick ::
  "nat \<Rightarrow> 'sink TableSink \<Rightarrow> (nat \<Rightarrow> bool) \<Rightarrow> (DDLEvent \<Rightarrow> error option) \<Rightarrow> nat
    \<Rightarrow> 'sink Consumer \<Rightarrow> 'sink tick_result option" where
  "Run_tick n I ctx WriteDDLEvent k c =
     (if ctx k then Some (TickReturn ContextCanceled)
      else
        (let minPartitionResolvedTs = getMinPartitionResolvedTs c in
         case getFrontDDL c of
           None \<Rightarrow> Run_update_global n I ctx (Suc k) c minPartitionResolvedTs
         | Some todoDDL \<Rightarrow>
             if ddl_CommitTs todoDDL \<le> minPartitionResolvedTs then
               (case forEachSink_flush n I ctx (Suc k) (sinks c) (ddl_CommitTs todoDDL) of
                  None \<Rightarrow> None
                | Some (EachPanic p) \<Rightarrow> Some (TickPanic p)
                | Some (EachReturn (Some err) sinks1 k1) \<Rightarrow> Some (TickReturn err)
                | Some (EachReturn None sinks1 k1) \<Rightarrow>
                    (case WriteDDLEvent todoDDL of
                       Some err \<Rightarrow> Some (TickReturn err)
                     | None \<Rightarrow>
                         Run_update_global n I ctx k1 (popDDL (c\<lparr>sinks := sinks1\<rparr>))
                           (ddl_CommitTs todoDDL)))
             else Run_update_global n I ctx (Suc k) c minPartitionResolvedTs))"

text \<open>
  The loop of \<open>Consumer.Run\<close> over a sequence of iterations. The goroutine that consumes
  messages writes the partitions' resolved-ts, their tables and the list of DDLs, never
  \<open>globalResolvedTs\<close>: each iteration comes with the partitions and the DDL list as they
  are when it begins. The result is the value of \<open>globalResolvedTs\<close> after each completed
  iteration, and how the run ended.
\<close>

datatype run_end = RunPanic string | RunReturn error | RunBlocked | RunTicking

fun Run ::
  "nat \<Rightarrow> 'sink TableSink \<Rightarrow> (nat \<Rightarrow> bool) \<Rightarrow> (DDLEvent \<Rightarrow> error option) \<Rightarrow> nat
    \<Rightarrow> 'sink Consumer \<Rightarrow> ('sink partitionSinks list \<times> DDLEvent list) list
    \<Rightarrow> Ts list \<times> run_end" where
  "Run n I ctx WriteDDLEvent k c [] = ([], RunTicking)"
| "Run n I ctx WriteDDLEvent k c (e # es) =
     (case Run_tick n I ctx WriteDDLEvent k (c\<lparr>sinks := fst e, ddlList := snd e\<rparr>) of
        None \<Rightarrow> ([], RunBlocked)
      | Some (TickPanic p) \<Rightarrow> ([], RunPanic p)
      | Some (TickReturn err) \<Rightarrow> ([], RunReturn err)
      | Some (TickContinue c1 k1) \<Rightarrow>
          (let r = Run n I ctx WriteDDLEvent k1 c1 es in (globalResolvedTs c1 # fst r, snd r)))"

text \<open>
  The minimum of the partitions' resolved-ts after the front DDL, when it is due, has
  replaced it by its commit-ts.
\<close>

definition adjustedMin :: "'sink Consumer \<Rightarrow> Ts" where
  "adjustedMin c =
     (case getFrontDDL c of
        None \<Rightarrow> getMinPartitionResolvedTs c
      | Some todoDDL \<Rightarrow>
          if ddl_CommitTs todoDDL \<le> getMinPartitionResolvedTs c then ddl_CommitTs todoDDL
          else getMinPartitionResolvedTs c)"

text \<open>
  The precondition on the upstream for a run that starts with \<open>globalResolvedTs = g\<close> and
  the partitions \<open>prev\<close>: from one iteration to the next no partition's resolved-ts moves
  backward, and the front DDL, when there is one, has a commit-ts not below
  \<open>globalResolvedTs\<close>.
\<close>

fun upstream_monotone ::
  "Ts \<Rightarrow> 'sink partitionSinks list \<Rightarrow> ('sink partitionSinks list \<times> DDLEvent list) list \<Rightarrow> bool"
  where
  "upstream_monotone g prev [] = True"
| "upstream_monotone g prev (e # es) =
     (list_all2 (\<lambda>a b. resolvedTs a \<le> resolvedTs b) prev (fst e)
      \<and> (case snd e of [] \<Rightarrow> True | d # ds \<Rightarrow> g \<le> ddl_CommitTs d)
      \<and> upstream_monotone
          (max g (adjustedMin \<lparr>ddlList = snd e, sinks = fst e, globalResolvedTs = g\<rparr>))
          (fst e) es)"

text \<open>
  A partition for the examples: table 1 with last committed ts 5 and a sink at checkpoint
  10, table 2 with last committed ts 20 and a sink at checkpoint 12.
\<close>

definition example_partition :: "simpleSink partitionSinks" where
  "example_partition =
     \<lparr>tablesCommitTsMap = [(1, 5), (2, 20)],
      tableSinksMap = [1 \<mapsto> simpleSink_at 10, 2 \<mapsto> simpleSink_at 12],
      resolvedTs = 20\<rparr>"

definition example_partition_flushed :: "simpleSink partitionSinks" where
  "example_partition_flushed =
     example_partition\<lparr>tableSinksMap :=
       [1 \<mapsto> (simpleSink_at 10)\<lparr>ss_resolvedTs := NewResolvedTs 10\<rparr>,
        2 \<mapsto> (simpleSink_at 12)\<lparr>ss_resolvedTs := NewResolvedTs 10\<rparr>]\<rparr>"

section \<open>Properties of the ledger update\<close>


lemma drop_bit_18_bound: "uint (drop_bit 18 (w :: 64 word)) < 2 ^ 46"
proof -
  have "uint (drop_bit 18 w) = drop_bit 18 (uint w)"
    using uint_lt2p [of w] by (simp add: unsigned_drop_bit_eq take_bit_int_eq_self)
  then have e: "uint (drop_bit 18 w) = uint w div 2 ^ 18"
    by (simp only: drop_bit_eq_div)
  have "uint w < 2 ^ 64" using uint_lt2p [of w] by simp
  then have "uint w div 2 ^ 18 < 2 ^ 46" by (simp add: div_less_iff_less_mult)
  with e show ?thesis by simp
qed

lemma sint_small:
  fixes x :: "64 word"
  assumes "uint x < 2 ^ 46"
  shows "sint x = uint x"
proof -
  have "sint x = signed_take_bit 63 (uint x)" by (simp add: sint_uint)
  also have "\<dots> = uint x"
  proof (rule signed_take_bit_int_eq_self)
    show "- (2 ^ 63) \<le> uint x" by (rule order_trans [of _ 0]) simp_all
    show "uint x < 2 ^ 63" using assms by simp
  qed
  finally show ?thesis .
qed

lemma int_diff_bounds:
  fixes a b :: int
  assumes "0 \<le> a" "0 \<le> b" "a < 2 ^ 46" "b < 2 ^ 46"
  shows "- (2 ^ 63) \<le> a - b" and "a - b < 2 ^ 63"
  using assms by simp_all

lemma sint_sub_small:
  fixes x y :: "64 word"
  assumes "uint x < 2 ^ 46" "uint y < 2 ^ 46"
  shows "sint (x - y) = uint x - uint y"
proof -
  have "sint (x - y) = signed_take_bit 63 (sint x - sint y)"
    using sint_word_ariths(2) [of x y] by simp
  also have "\<dots> = signed_take_bit 63 (uint x - uint y)"
    using assms by (simp only: sint_small)
  also have "\<dots> = uint x - uint y"
    by (rule signed_take_bit_int_eq_self)
      (rule int_diff_bounds [OF uint_ge_0 uint_ge_0 assms])+
  finally show ?thesis .
qed

lemma sle_1000_iff:
  "((1000 :: 64 word) \<le>s ExtractPhysical a - ExtractPhysical b) = (1000 \<le> phys_diff a b)"
proof -
  have "sint (ExtractPhysical a - ExtractPhysical b) = phys_diff a b"
    unfolding ExtractPhysical_def phys_diff_def of_nat_unat
    by (rule sint_sub_small) (rule drop_bit_18_bound)+
  then show ?thesis unfolding word_sle_eq by simp
qed

lemma list_update_last:
  "c \<noteq> [] \<Longrightarrow> c[length c - Suc 0 := x] = butlast c @ [x]"
  by (induction c rule: rev_induct) simp_all

text \<open>
  Claim C5. For a non-empty ledger \<open>c\<close> and an update with \<open>n\<close>: when the last position
  of \<open>n\<close> does not strictly exceed the last position of the last record, the ledger is
  unchanged. Otherwise, when the physical-millisecond difference between the last record's
  first position and the last position of \<open>n\<close> is strictly below 1000, the last record is
  merged (its last position replaced, the events added with Go's \<open>int\<close> addition); when the
  difference is 1000 or more, \<open>n\<close> is appended as a new record.
\<close>

theorem updateRangeEventCounts_spec:
  assumes "c \<noteq> []"
  shows "updateRangeEventCounts c n =
    (if \<not> Compare (lastPos (last c)) (lastPos n) < 0 then c
     else if phys_diff (CommitTs (lastPos n)) (CommitTs (firstPos (last c))) < 1000
       then butlast c @ [(last c)\<lparr>lastPos := lastPos n, events := events (last c) + events n\<rparr>]
     else c @ [n])"
proof -
  have l: "c ! (length c - Suc 0) = last c"
    using assms by (simp add: last_conv_nth)
  show ?thesis
    using assms
    by (simp add: updateRangeEventCounts_def Let_def l sle_1000_iff list_update_last not_le)
qed


theorem updateRangeEventCounts_spec_witness:
  "[newRangeEventCount (pos_ms 1000000000) 5] \<noteq> [] \<and>
   updateRangeEventCounts [newRangeEventCount (pos_ms 1000000000) 5]
       (newRangeEventCount (pos_ms 1000001000) 3)
     = [newRangeEventCount (pos_ms 1000000000) 5, newRangeEventCount (pos_ms 1000001000) 3]"
  using updateRangeEventCounts_spec [of "[newRangeEventCount (pos_ms 1000000000) 5]"
      "newRangeEventCount (pos_ms 1000001000) 3"]
  by (simp add: newRangeEventCount_def pos_ms_def Compare_def phys_diff_def)

lemma updateRangeEventCounts_merge_example:
  "updateRangeEventCounts [newRangeEventCount (pos_ms 1000000000) 5]
       (newRangeEventCount (pos_ms 1000000500) 3)
     = [\<lparr>firstPos = pos_ms 1000000000, lastPos = pos_ms 1000000500, events = 8\<rparr>]"
  by (simp add: updateRangeEventCounts_def newRangeEventCount_def pos_ms_def Compare_def
      ExtractPhysical_def Let_def word_sle_eq)

section \<open>Properties of binary search and of the ledger cleanup\<close>



lemma search_post_widen:
  "search_post f n i' j' r \<Longrightarrow> i \<le> i' \<Longrightarrow> j' \<le> j \<Longrightarrow> search_post f n i j r"
  unfolding search_post_def by auto

lemma Search_loop_correct:
  assumes "i \<le> j" "j \<le> n"
    and "\<forall>k<i. \<not> f k" "\<forall>k. j \<le> k \<and> k < n \<longrightarrow> f k"
    and mono: "\<forall>a b. a \<le> b \<and> b < n \<and> f a \<longrightarrow> f b"
  shows "search_post f n i j (Search_loop f i j)"
  using assms
proof (induction f i j rule: Search_loop.induct)
  case (1 f i j)
  show ?case
  proof (cases "i < j")
    case False
    then have "Search_loop f i j = i" by (subst Search_loop.simps) simp
    moreover have "i = j" using False "1.prems"(1) by simp
    ultimately show ?thesis
      unfolding search_post_def using "1.prems"(3,4) by simp
  next
    case True
    define h where "h = (i + j) div 2"
    have hb: "i \<le> h" "h < j" using True by (simp_all add: h_def)
    have hn: "h < n" using hb "1.prems"(2) by simp
    show ?thesis
    proof (cases "f h")
      case fh: True
      have eq: "Search_loop f i j = Search_loop f i h"
        by (subst Search_loop.simps) (simp add: True fh h_def [symmetric] Let_def)
      have up: "\<forall>k. h \<le> k \<and> k < n \<longrightarrow> f k"
        using fh "1.prems"(5) by blast
      have nn: "\<not> \<not> f h" using fh by simp
      have hn': "h \<le> n" using hn by simp
      have "search_post f n i h (Search_loop f i h)"
        by (rule "1.IH"(2) [OF True h_def nn hb(1) hn' "1.prems"(3) up "1.prems"(5)])
      then show ?thesis
        unfolding eq using hb(2) by (elim search_post_widen) simp_all
    next
      case nfh: False
      have eq: "Search_loop f i j = Search_loop f (h + 1) j"
        by (subst Search_loop.simps) (simp add: True nfh h_def [symmetric] Let_def)
      have low: "\<forall>k<h + 1. \<not> f k"
      proof (intro allI impI)
        fix k assume "k < h + 1"
        then have "k \<le> h" by simp
        then show "\<not> f k" using hn nfh "1.prems"(5) by blast
      qed
      have hj: "h + 1 \<le> j" using hb(2) by simp
      have "search_post f n (h + 1) j (Search_loop f (h + 1) j)"
        by (rule "1.IH"(1) [OF True h_def nfh hj "1.prems"(2) low "1.prems"(4) "1.prems"(5)])
      then show ?thesis
        unfolding eq using hb(1) by (elim search_post_widen) simp_all
    qed
  qed
qed

lemma Search_first:
  assumes mono: "\<forall>a b. a \<le> b \<and> b < n \<and> f a \<longrightarrow> f b"
  shows "Search n f \<le> n" "\<forall>k < Search n f. \<not> f k" "Search n f < n \<Longrightarrow> f (Search n f)"
proof -
  have "search_post f n 0 n (Search_loop f 0 n)"
    by (rule Search_loop_correct [OF _ _ _ _ mono]) auto
  then show "Search n f \<le> n" "\<forall>k < Search n f. \<not> f k" "Search n f < n \<Longrightarrow> f (Search n f)"
    unfolding Search_def search_post_def by blast+
qed

lemma Compare_less_iff:
  "Compare p q < 0 \<longleftrightarrow>
     CommitTs p < CommitTs q \<or> (CommitTs p = CommitTs q \<and> StartTs p < StartTs q)"
  by (simp add: Compare_def)

lemma Compare_greater_iff: "0 < Compare p q \<longleftrightarrow> Compare q p < 0"
  by (auto simp: Compare_def)

lemma Compare_less_trans:
  "Compare p q < 0 \<Longrightarrow> Compare q r < 0 \<Longrightarrow> Compare p r < 0"
  unfolding Compare_less_iff by auto

lemma Compare_above_mono:
  "0 < Compare p u \<Longrightarrow> Compare p q < 0 \<Longrightarrow> 0 < Compare q u"
  unfolding Compare_greater_iff by (rule Compare_less_trans)

lemma ledger_sorted_mono:
  assumes "ledger_sorted c"
  shows "\<forall>a b. a \<le> b \<and> b < length c \<and> 0 < Compare (lastPos (c ! a)) u
    \<longrightarrow> 0 < Compare (lastPos (c ! b)) u"
proof (intro allI impI)
  fix a b
  assume h: "a \<le> b \<and> b < length c \<and> 0 < Compare (lastPos (c ! a)) u"
  show "0 < Compare (lastPos (c ! b)) u"
  proof (cases "a = b")
    case True
    with h show ?thesis by simp
  next
    case False
    with h have "a < b" "b < length c" by simp_all
    with assms have "Compare (lastPos (c ! a)) (lastPos (c ! b)) < 0"
      unfolding ledger_sorted_def by (simp add: sorted_wrt_iff_nth_less)
    with h show ?thesis by (blast intro: Compare_above_mono)
  qed
qed

lemma first_above_props:
  "first_above c u \<le> length c"
  "k < first_above c u \<Longrightarrow> \<not> 0 < Compare (lastPos (c ! k)) u"
  "first_above c u < length c \<Longrightarrow> 0 < Compare (lastPos (c ! first_above c u)) u"
proof -
  let ?P = "\<lambda>r. \<not> 0 < Compare (lastPos r) u"
  show "first_above c u \<le> length c"
    by (simp add: first_above_def length_takeWhile_le)
  show "\<not> 0 < Compare (lastPos (c ! k)) u" if "k < first_above c u"
  proof -
    have "takeWhile ?P c ! k \<in> set (takeWhile ?P c)"
      using that by (simp add: first_above_def)
    then have "?P (takeWhile ?P c ! k)" by (rule set_takeWhileD [THEN conjunct2])
    moreover have "takeWhile ?P c ! k = c ! k"
      using that by (simp add: first_above_def takeWhile_nth)
    ultimately show ?thesis by simp
  qed
  show "0 < Compare (lastPos (c ! first_above c u)) u" if "first_above c u < length c"
    using nth_length_takeWhile [of ?P c] that by (simp add: first_above_def)
qed

lemma Search_first_above:
  assumes "ledger_sorted c"
  shows "Search (length c) (\<lambda>i. 0 < Compare (lastPos (c ! i)) u) = first_above c u"
proof -
  let ?f = "\<lambda>i. 0 < Compare (lastPos (c ! i)) u"
  let ?r = "Search (length c) ?f" and ?t = "first_above c u"
  note S = Search_first [of "length c" ?f, OF ledger_sorted_mono [OF assms]]
  show ?thesis
  proof (rule linorder_cases [of ?r ?t])
    assume lt: "?r < ?t"
    then have "?r < length c" using first_above_props(1) [of c u] by simp
    then have "?f ?r" by (rule S(3))
    with first_above_props(2) [OF lt] show ?thesis by simp
  next
    assume gt: "?t < ?r"
    then have "?t < length c" using S(1) by simp
    then have "?f ?t" by (rule first_above_props(3))
    with S(2) gt show ?thesis by simp
  qed
qed

lemma foldl_events_sum:
  "foldl (\<lambda>count e. count + events e) a xs = a + sum_list (map events xs)"
  by (induction xs arbitrary: a) (simp_all add: add.assoc)

lemma drop_update_last:
  assumes "0 < idx" "idx \<le> length c"
  shows "drop (idx - Suc 0) (c[idx - Suc 0 := x]) = x # drop idx c"
proof -
  obtain m where m: "idx = Suc m" using assms(1) by (cases idx) simp_all
  then have ml: "m < length (c[m := x])" using assms(2) by simp
  have "drop m (c[m := x]) = (c[m := x]) ! m # drop (Suc m) (c[m := x])"
    by (rule Cons_nth_drop_Suc [OF ml, symmetric])
  also have "\<dots> = x # drop (Suc m) c"
    using ml by simp
  finally show ?thesis by (simp add: m)
qed

text \<open>
  Claim C4. For a ledger with strictly ascending last positions and a call
  \<open>clean(upperBound, minEvents)\<close> where \<open>idx\<close>, the first index whose last position is above
  the upper bound (the length of the ledger when there is none), is positive: when the events
  of the records \<open>[0, idx)\<close>, summed with Go's \<open>int\<close> addition, reach \<open>minEvents\<close>, those
  records are dropped and the call returns true; otherwise the sum is stored in record
  \<open>idx - 1\<close>, the records before it are dropped, and the call returns false.
\<close>

theorem cleanRangeEventCounts_spec:
  assumes "ledger_sorted c" and "0 < first_above c ub"
  shows "cleanRangeEventCounts c ub minEvents =
    (if minEvents \<le>s sum_list (map events (take (first_above c ub) c))
     then (drop (first_above c ub) c, True)
     else ((c ! (first_above c ub - 1))
             \<lparr>events := sum_list (map events (take (first_above c ub) c))\<rparr>
           # drop (first_above c ub) c, False))"
proof -
  have le: "first_above c ub \<le> length c" by (rule first_above_props(1))
  with assms(2) have ne: "length c \<noteq> 0" by auto
  show ?thesis
    using assms(2) ne
    by (simp add: cleanRangeEventCounts_def Search_first_above [OF assms(1)] Let_def
        foldl_events_sum drop_update_last [OF assms(2) le])
qed


theorem cleanRangeEventCounts_spec_witness:
  "ledger_sorted [newRangeEventCount (pos_ms 1000) 3, newRangeEventCount (pos_ms 3000) 4,
       newRangeEventCount (pos_ms 5000) 2]
   \<and> 0 < first_above [newRangeEventCount (pos_ms 1000) 3, newRangeEventCount (pos_ms 3000) 4,
       newRangeEventCount (pos_ms 5000) 2] (pos_ms 3500)
   \<and> cleanRangeEventCounts [newRangeEventCount (pos_ms 1000) 3,
       newRangeEventCount (pos_ms 3000) 4, newRangeEventCount (pos_ms 5000) 2] (pos_ms 3500) 10
     = ([newRangeEventCount (pos_ms 3000) 7, newRangeEventCount (pos_ms 5000) 2], False)"
  using cleanRangeEventCounts_spec [of "[newRangeEventCount (pos_ms 1000) 3,
       newRangeEventCount (pos_ms 3000) 4, newRangeEventCount (pos_ms 5000) 2]" "pos_ms 3500" 10]
  by (simp add: ledger_sorted_def first_above_def newRangeEventCount_def pos_ms_def Compare_def
      word_sle_eq)

text \<open>The same ledger with a threshold that the leading records reach.\<close>


lemma cleanRangeEventCounts_true_example:
  "cleanRangeEventCounts [newRangeEventCount (pos_ms 1000) 3,
       newRangeEventCount (pos_ms 3000) 4, newRangeEventCount (pos_ms 5000) 2] (pos_ms 3500) 7
     = ([newRangeEventCount (pos_ms 5000) 2], True)"
  by code_simp

section \<open>Properties of the table sink wrapper\<close>


lemma Less_irrefl: "\<not> Less a a"
  by (simp add: Less_def)

lemma not_Less_trans: "\<not> Less b a \<Longrightarrow> \<not> Less c b \<Longrightarrow> \<not> Less c a"
  unfolding Less_def by auto

lemma Less_imp_not_Less: "Less a b \<Longrightarrow> \<not> Less b a"
  unfolding Less_def by auto

lemma clear_checkpoint:
  "tableSink_s t = Some s \<Longrightarrow>
   state_checkpointTs (clear I t now) =
     (if Less (state_checkpointTs t) (GetCheckpointTs I s) then GetCheckpointTs I s
      else state_checkpointTs t)"
  by (simp add: clear_def Let_def)

lemma clear_checkpoint_mono: "\<not> Less (state_checkpointTs (clear I t now)) (state_checkpointTs t)"
proof (cases "tableSink_s t")
  case None
  then show ?thesis by (simp add: clear_def Less_irrefl)
next
  case (Some s)
  show ?thesis
    unfolding clear_checkpoint [OF Some]
    by (simp add: Less_irrefl Less_imp_not_Less)
qed

lemma getCheckpointTs_checkpoint:
  "state_checkpointTs (fst (getCheckpointTs I t now)) =
     (case tableSink_s t of
        None \<Rightarrow> state_checkpointTs t
      | Some s \<Rightarrow>
          (if Less (state_checkpointTs t) (GetCheckpointTs I s) then GetCheckpointTs I s
           else state_checkpointTs t))"
  by (simp add: getCheckpointTs_def Let_def split: option.splits)

lemma getCheckpointTs_mono:
  "\<not> Less (state_checkpointTs (fst (getCheckpointTs I t now))) (state_checkpointTs t)"
proof (cases "tableSink_s t")
  case None
  then show ?thesis by (simp add: getCheckpointTs_checkpoint Less_irrefl)
next
  case (Some s)
  show ?thesis
  proof (cases "Less (state_checkpointTs t) (GetCheckpointTs I s)")
    case True
    then have "\<not> Less (GetCheckpointTs I s) (state_checkpointTs t)"
      by (rule Less_imp_not_Less)
    with True Some show ?thesis by (simp add: getCheckpointTs_checkpoint)
  next
    case False
    with Some show ?thesis by (simp add: getCheckpointTs_checkpoint Less_irrefl)
  qed
qed

lemma getCheckpointTs_result:
  "snd (getCheckpointTs I t now) = state_checkpointTs (fst (getCheckpointTs I t now))"
  by (simp add: getCheckpointTs_def Let_def)

lemma start_checkpoint:
  assumes "start t ts gen now = Inr r"
  shows "state_checkpointTs (fst r) =
     (if snd gen = None \<and> Less (state_checkpointTs t) (NewResolvedTs ts) then NewResolvedTs ts
      else state_checkpointTs t)"
  using assms
  by (cases "snd gen") (auto simp: start_def Let_def Greater_def split: if_splits)

lemma start_checkpoint_mono:
  "start t ts gen now = Inr r \<Longrightarrow> \<not> Less (state_checkpointTs (fst r)) (state_checkpointTs t)"
  unfolding start_checkpoint
  by (simp add: Less_irrefl Less_imp_not_Less)

lemma asyncClose_checkpoint_mono:
  "\<not> Less (state_checkpointTs (fst (asyncClose I t now))) (state_checkpointTs t)"
proof (cases "tableSink_s t")
  case None
  then show ?thesis by (simp add: asyncClose_def Less_irrefl)
next
  case (Some s)
  then show ?thesis
    using clear_checkpoint_mono [of I "t\<lparr>tableSink_s := Some (fst (AsyncClose I s))\<rparr>" now]
    by (simp add: asyncClose_def Let_def Less_irrefl)
qed

lemma asyncStop_checkpoint_mono:
  "\<not> Less (state_checkpointTs (fst (asyncStop I t now))) (state_checkpointTs t)"
  using asyncClose_checkpoint_mono [of I "markAsClosing t" now]
  by (simp add: asyncStop_def Let_def markAsClosing_def split: if_splits)

lemma closeAndClear_checkpoint_mono:
  "\<not> Less (state_checkpointTs (closeAndClear I t now)) (state_checkpointTs t)"
  using clear_checkpoint_mono [of I "Close_wrapper I t" now]
  by (simp add: closeAndClear_def Close_wrapper_def split: option.splits)

lemma sinkMaybeStuck_wrapper:
  "fst (sinkMaybeStuck I t c now) = fst (getCheckpointTs I t now)"
  by (simp add: sinkMaybeStuck_def Let_def)

lemma appendRowChangedEvents_checkpoint:
  "state_checkpointTs (fst (appendRowChangedEvents I t evs)) = state_checkpointTs t"
  by (simp add: appendRowChangedEvents_def split: option.splits)

lemma updateBarrierTs_checkpoint:
  "state_checkpointTs (updateBarrierTs t ts) = state_checkpointTs t"
  by (simp add: updateBarrierTs_def)

lemma updateReceivedSorterResolvedTs_checkpoint:
  "state_checkpointTs (updateReceivedSorterResolvedTs t ts) = state_checkpointTs t"
  by (simp add: updateReceivedSorterResolvedTs_def Let_def)

lemma updateResolvedTs_checkpoint:
  "state_checkpointTs (fst (updateResolvedTs I t ts)) = state_checkpointTs t"
  by (simp add: updateResolvedTs_def Let_def split: option.splits)

lemma isReady_checkpoint:
  "state_checkpointTs (fst (isReady t created now)) = state_checkpointTs t"
  by (simp add: isReady_def Let_def split: option.splits)

lemma restart_checkpoint:
  "state_checkpointTs (fst (restart t gen)) = state_checkpointTs t"
  by (simp add: restart_def)

lemma wrapper_step_checkpoint_mono:
  assumes "wrapper_step I t op = Inr r"
  shows "\<not> Less (state_checkpointTs (fst r)) (state_checkpointTs t)"
proof (cases op)
  case (OpStart ts gen now)
  with assms obtain r' where "start t ts gen now = Inr r'" "fst r = fst r'"
    by (auto split: sum.splits)
  then show ?thesis using start_checkpoint_mono [of t ts gen now r'] by simp
next
  case (OpAppendRowChangedEvents evs)
  with assms have "fst r = fst (appendRowChangedEvents I t evs)" by auto
  then show ?thesis by (simp add: appendRowChangedEvents_checkpoint Less_irrefl)
next
  case (OpUpdateBarrierTs ts)
  with assms have "fst r = updateBarrierTs t ts" by auto
  then show ?thesis by (simp add: updateBarrierTs_checkpoint Less_irrefl)
next
  case (OpUpdateReceivedSorterResolvedTs ts)
  with assms have "fst r = updateReceivedSorterResolvedTs t ts" by auto
  then show ?thesis by (simp add: updateReceivedSorterResolvedTs_checkpoint Less_irrefl)
next
  case (OpUpdateResolvedTs ts)
  with assms have "fst r = fst (updateResolvedTs I t ts)" by auto
  then show ?thesis by (simp add: updateResolvedTs_checkpoint Less_irrefl)
next
  case (OpGetCheckpointTs now)
  with assms have "fst r = fst (getCheckpointTs I t now)" by (auto simp: Let_def)
  then show ?thesis by (simp add: getCheckpointTs_mono)
next
  case (OpIsReady created now)
  with assms have "fst r = fst (isReady t created now)" by auto
  then show ?thesis by (simp add: isReady_checkpoint Less_irrefl)
next
  case (OpAsyncClose now)
  with assms have "fst r = fst (asyncClose I t now)" by auto
  then show ?thesis by (simp add: asyncClose_checkpoint_mono)
next
  case (OpAsyncStop now)
  with assms have "fst r = fst (asyncStop I t now)" by auto
  then show ?thesis by (simp add: asyncStop_checkpoint_mono)
next
  case (OpClear now)
  with assms have "fst r = clear I t now" by auto
  then show ?thesis by (simp add: clear_checkpoint_mono)
next
  case (OpCloseAndClear now)
  with assms have "fst r = closeAndClear I t now" by auto
  then show ?thesis by (simp add: closeAndClear_checkpoint_mono)
next
  case (OpRestart gen)
  with assms have "fst r = fst (restart t gen)" by auto
  then show ?thesis by (simp add: restart_checkpoint Less_irrefl)
next
  case (OpSinkMaybeStuck c now)
  with assms have "fst r = fst (getCheckpointTs I t now)"
    by (auto simp: sinkMaybeStuck_wrapper)
  then show ?thesis by (simp add: getCheckpointTs_mono)
next
  case (OpSinkProgress s')
  with assms have "state_checkpointTs (fst r) = state_checkpointTs t"
    by (auto split: option.splits)
  then show ?thesis by (simp add: Less_irrefl)
qed

lemma wrapper_step_observed:
  assumes "wrapper_step I t op = Inr r" "x \<in> set (snd r)"
  shows "x = state_checkpointTs (fst r)"
  using assms by (cases op) (auto simp: Let_def getCheckpointTs_result split: sum.splits)

lemma observedCheckpoints_lower:
  "x \<in> set (observedCheckpoints I t ops) \<Longrightarrow> \<not> Less x (state_checkpointTs t)"
proof (induction ops arbitrary: t)
  case Nil
  then show ?case by simp
next
  case (Cons op ops)
  show ?case
  proof (cases "wrapper_step I t op")
    case (Inl p)
    with Cons.prems show ?thesis by simp
  next
    case (Inr r)
    note m = wrapper_step_checkpoint_mono [OF Inr]
    from Cons.prems Inr
    consider "x \<in> set (snd r)" | "x \<in> set (observedCheckpoints I (fst r) ops)" by auto
    then show ?thesis
    proof cases
      case 1
      then have "x = state_checkpointTs (fst r)" by (rule wrapper_step_observed [OF Inr])
      with m show ?thesis by simp
    next
      case 2
      then have "\<not> Less x (state_checkpointTs (fst r))" by (rule Cons.IH)
      with m show ?thesis by (rule not_Less_trans)
    qed
  qed
qed

text \<open>
  Claim C1. For every wrapper, every downstream sink (whatever its methods answer, and
  however it moves on its own between calls) and every sequence of operations (start,
  append, the timestamp updates, getCheckpointTs, isReady, asyncClose, asyncStop, clear,
  closeAndClear, restart, sinkMaybeStuck), the values returned by getCheckpointTs are
  monotonic non-decreasing: a later result is never \<open>Less\<close> than an earlier one, also
  across a close or clear followed by isReady installing a new sink.
\<close>

theorem getCheckpointTs_monotonic:
  "sorted_wrt (\<lambda>earlier later. \<not> Less later earlier) (observedCheckpoints I t ops)"
proof (induction ops arbitrary: t)
  case Nil
  show ?case by simp
next
  case (Cons op ops)
  show ?case
  proof (cases "wrapper_step I t op")
    case (Inl p)
    then show ?thesis by simp
  next
    case (Inr r)
    have one: "sorted_wrt (\<lambda>earlier later. \<not> Less later earlier) (snd r)"
    proof -
      have "length (snd r) \<le> 1"
        using Inr by (cases op) (auto simp: Let_def split: sum.splits)
      then show ?thesis by (cases "snd r") (auto simp: le_Suc_eq)
    qed
    have cross: "\<not> Less y x"
      if "x \<in> set (snd r)" "y \<in> set (observedCheckpoints I (fst r) ops)" for x y
      using observedCheckpoints_lower [OF that(2)] wrapper_step_observed [OF Inr that(1)]
      by simp
    show ?thesis
      using Inr one cross Cons.IH [of "fst r"] by (simp add: sorted_wrt_append)
  qed
qed

text \<open>Scenario S1 of the spec: the checkpoint survives a close and a new sink.\<close>


lemma Less_NewResolvedTs: "Less (NewResolvedTs a) (NewResolvedTs b) = (a < b)"
  by (simp add: Less_def rts_key_def NewResolvedTs_def word_less_nat_alt)

lemma scenario_S1:
  "observedCheckpoints simpleSink_methods (newTableSinkWrapper TableStatePreparing 100 0)
     [OpIsReady (Some (simpleSink_at 100), 1) 1, OpSinkProgress (simpleSink_at 150),
      OpGetCheckpointTs 2, OpCloseAndClear 3, OpGetCheckpointTs 4,
      OpIsReady (Some (simpleSink_at 0), 2) 5, OpGetCheckpointTs 6]
   = [NewResolvedTs 150, NewResolvedTs 150, NewResolvedTs 150]"
  by (simp add: isReady_def getCheckpointTs_def closeAndClear_def Close_wrapper_def clear_def
      newTableSinkWrapper_def simpleSink_methods_def simpleSink_at_def Less_NewResolvedTs Let_def)

theorem getCheckpointTs_monotonic_witness:
  "sorted_wrt (\<lambda>earlier later. \<not> Less later earlier)
     (observedCheckpoints simpleSink_methods (newTableSinkWrapper TableStatePreparing 100 0)
       [OpIsReady (Some (simpleSink_at 100), 1) 1, OpSinkProgress (simpleSink_at 150),
        OpGetCheckpointTs 2, OpCloseAndClear 3, OpGetCheckpointTs 4,
        OpIsReady (Some (simpleSink_at 0), 2) 5, OpGetCheckpointTs 6])
   \<and> observedCheckpoints simpleSink_methods (newTableSinkWrapper TableStatePreparing 100 0)
       [OpIsReady (Some (simpleSink_at 100), 1) 1, OpSinkProgress (simpleSink_at 150),
        OpGetCheckpointTs 2, OpCloseAndClear 3, OpGetCheckpointTs 4,
        OpIsReady (Some (simpleSink_at 0), 2) 5, OpGetCheckpointTs 6]
     = [NewResolvedTs 150, NewResolvedTs 150, NewResolvedTs 150]"
  using getCheckpointTs_monotonic [of simpleSink_methods
      "newTableSinkWrapper TableStatePreparing 100 0"
      "[OpIsReady (Some (simpleSink_at 100), 1) 1, OpSinkProgress (simpleSink_at 150),
        OpGetCheckpointTs 2, OpCloseAndClear 3, OpGetCheckpointTs 4,
        OpIsReady (Some (simpleSink_at 0), 2) 5, OpGetCheckpointTs 6]"]
    scenario_S1
  by simp

subsection \<open>Clearing the sink\<close>


text \<open>
  Claim C3 as stated (after \<open>clear\<close> the cached checkpoint equals what the sink's
  \<open>GetCheckpointTs\<close> returned) fails: a wrapper created at start-ts 150 whose new sink
  reports the checkpoint 100 keeps the cached checkpoint 150 through \<open>clear\<close>.
\<close>

theorem clear_checkpoint_counterexample:
  "tableSink_s (fst (isReady (newTableSinkWrapper TableStatePreparing 150 0)
       (Some (simpleSink_at 100), 1) 1)) = Some (simpleSink_at 100)
   \<and> GetCheckpointTs simpleSink_methods (simpleSink_at 100) = NewResolvedTs 100
   \<and> state_checkpointTs (clear simpleSink_methods
         (fst (isReady (newTableSinkWrapper TableStatePreparing 150 0)
            (Some (simpleSink_at 100), 1) 1)) 2) = NewResolvedTs 150
   \<and> NewResolvedTs 150 \<noteq> NewResolvedTs 100"
  by (simp add: isReady_def newTableSinkWrapper_def clear_def simpleSink_methods_def
      simpleSink_at_def NewResolvedTs_def Less_def rts_key_def Let_def)

text \<open>
  Claim C3, amended. For a wrapper whose sink field is non-null, after \<open>clear\<close> the cached
  checkpoint is the greater of the previous cached checkpoint and the value the sink's
  \<open>GetCheckpointTs\<close> returned at clear-time (so it equals that value whenever the cache
  was behind it), the cached resolved-ts is that value, the cached last-synced-ts is the
  sink's, and the sink field is null with version 0.
\<close>

theorem clear_spec:
  assumes "tableSink_s t = Some s"
  shows "state_checkpointTs (clear I t now) =
      (if Less (state_checkpointTs t) (GetCheckpointTs I s) then GetCheckpointTs I s
       else state_checkpointTs t)
    \<and> state_resolvedTs (clear I t now) = GetCheckpointTs I s
    \<and> state_lastSyncedTs (clear I t now) = GetLastSyncedTs I s
    \<and> tableSink_s (clear I t now) = None
    \<and> tableSink_version (clear I t now) = 0"
  using assms by (simp add: clear_def Let_def)

theorem clear_spec_witness:
  "tableSink_s (fst (isReady (newTableSinkWrapper TableStatePreparing 100 0)
       (Some (simpleSink_at 120), 1) 1)) = Some (simpleSink_at 120)
   \<and> state_checkpointTs (clear simpleSink_methods
         (fst (isReady (newTableSinkWrapper TableStatePreparing 100 0)
            (Some (simpleSink_at 120), 1) 1)) 2) = NewResolvedTs 120
   \<and> tableSink_s (clear simpleSink_methods
         (fst (isReady (newTableSinkWrapper TableStatePreparing 100 0)
            (Some (simpleSink_at 120), 1) 1)) 2) = None"
proof -
  let ?t = "fst (isReady (newTableSinkWrapper TableStatePreparing 100 0)
       (Some (simpleSink_at 120), 1) 1)"
  have s: "tableSink_s ?t = Some (simpleSink_at 120)"
    by (simp add: isReady_def newTableSinkWrapper_def)
  have c: "state_checkpointTs ?t = NewResolvedTs 100"
    by (simp add: isReady_def newTableSinkWrapper_def)
  have g: "GetCheckpointTs simpleSink_methods (simpleSink_at 120) = NewResolvedTs 120"
    by (simp add: simpleSink_methods_def simpleSink_at_def)
  have l: "Less (NewResolvedTs 100) (NewResolvedTs 120)"
    by (simp add: Less_def rts_key_def NewResolvedTs_def)
  show ?thesis
    using clear_spec [OF s, of simpleSink_methods 2] s c g l by simp
qed

subsection \<open>Errors of a cleared sink\<close>


text \<open>
  Claim C6 as stated (both calls return an error exactly when the sink field is null) fails
  for \<open>updateResolvedTs\<close>: with a sink installed whose \<open>UpdateResolvedTs\<close> fails, the
  wrapper returns that error although its sink field is non-null.
\<close>

theorem updateResolvedTs_error_counterexample:
  "tableSink_s (fst (isReady (newTableSinkWrapper TableStatePreparing 100 0)
       (Some ((simpleSink_at 100)\<lparr>ss_updateError := Some (OtherError ''downstream'')\<rparr>), 1) 1))
     \<noteq> None
   \<and> snd (updateResolvedTs simpleSink_methods
         (fst (isReady (newTableSinkWrapper TableStatePreparing 100 0)
            (Some ((simpleSink_at 100)\<lparr>ss_updateError := Some (OtherError ''downstream'')\<rparr>), 1) 1))
         (NewResolvedTs 120))
     = Some (OtherError ''downstream'')"
  by (simp add: isReady_def newTableSinkWrapper_def updateResolvedTs_def simpleSink_methods_def
      simpleSink_at_def Let_def)

text \<open>
  Claim C6, amended. \<open>appendRowChangedEvents\<close> returns an error exactly when the sink field
  is null. When the sink field is null, both calls leave the wrapper as it is and return the
  error made by \<open>NewSinkInternalError\<close> from "table sink cleared" (the SinkClosed error of
  the spec). When it is non-null, both forward the call to the downstream sink:
  \<open>appendRowChangedEvents\<close> succeeds, and \<open>updateResolvedTs\<close> stores the resolved-ts in
  the cache and returns whatever the sink's \<open>UpdateResolvedTs\<close> returns.
\<close>

theorem sink_closed_errors:
  "(snd (appendRowChangedEvents I t evs) \<noteq> None \<longleftrightarrow> tableSink_s t = None)
   \<and> (tableSink_s t = None \<longrightarrow>
        appendRowChangedEvents I t evs = (t, Some (SinkInternalError ''table sink cleared''))
        \<and> updateResolvedTs I t ts = (t, Some (SinkInternalError ''table sink cleared'')))
   \<and> (\<forall>s. tableSink_s t = Some s \<longrightarrow>
        appendRowChangedEvents I t evs
          = (t\<lparr>tableSink_s := Some (AppendRowChangedEvents I s evs)\<rparr>, None)
        \<and> updateResolvedTs I t ts
          = (t\<lparr>state_resolvedTs := ts, tableSink_s := Some (fst (UpdateResolvedTs I s ts))\<rparr>,
             snd (UpdateResolvedTs I s ts)))"
  by (cases "tableSink_s t")
    (simp_all add: appendRowChangedEvents_def updateResolvedTs_def Let_def)

theorem sink_closed_errors_witness:
  "snd (appendRowChangedEvents simpleSink_methods
         (newTableSinkWrapper TableStatePreparing 100 0) [])
     = Some (SinkInternalError ''table sink cleared'')
   \<and> snd (updateResolvedTs simpleSink_methods
         (newTableSinkWrapper TableStatePreparing 100 0) (NewResolvedTs 120))
     = Some (SinkInternalError ''table sink cleared'')
   \<and> snd (appendRowChangedEvents simpleSink_methods
         (fst (isReady (newTableSinkWrapper TableStatePreparing 100 0)
            (Some (simpleSink_at 100), 1) 1)) [])
     = None
   \<and> snd (updateResolvedTs simpleSink_methods
         (fst (isReady (newTableSinkWrapper TableStatePreparing 100 0)
            (Some (simpleSink_at 100), 1) 1)) (NewResolvedTs 120))
     = None"
proof -
  let ?t0 = "newTableSinkWrapper TableStatePreparing 100 0 :: simpleSink tableSinkWrapper"
  let ?t1 = "fst (isReady ?t0 (Some (simpleSink_at 100), 1) 1)"
  have n: "tableSink_s ?t0 = None" by (simp add: newTableSinkWrapper_def)
  have s: "tableSink_s ?t1 = Some (simpleSink_at 100)"
    by (simp add: isReady_def newTableSinkWrapper_def)
  have u: "snd (UpdateResolvedTs simpleSink_methods (simpleSink_at 100) (NewResolvedTs 120)) = None"
    by (simp add: simpleSink_methods_def simpleSink_at_def)
  show ?thesis
    using sink_closed_errors [of simpleSink_methods ?t0 "[]" "NewResolvedTs 120"]
      sink_closed_errors [of simpleSink_methods ?t1 "[]" "NewResolvedTs 120"] n s u
    by simp
qed

section \<open>Properties of the event filter and of the event groups\<close>


lemma handleRowChangedEvents_loop_eq:
  "handleRowChangedEvents_loop A sz rows evs =
     (rows @ List.map_filter emitted_row evs,
      sz + sum_list (map A (List.map_filter emitted_row evs)))"
proof (induction evs arbitrary: sz rows)
  case Nil
  show ?case by (simp add: List.map_filter_simps)
next
  case (Cons e es)
  show ?case
  proof (cases "emitted_row e")
    case None
    then have "handleRowChangedEvents_loop A sz rows (e # es)
        = handleRowChangedEvents_loop A sz rows es"
      by (auto simp: emitted_row_def split: option.splits if_splits)
    with None Cons.IH show ?thesis by (simp add: List.map_filter_simps)
  next
    case (Some r)
    then have "handleRowChangedEvents_loop A sz rows (e # es)
        = handleRowChangedEvents_loop A (sz + A r) (rows @ [r]) es"
      by (auto simp: emitted_row_def split: option.splits if_splits)
    with Some Cons.IH show ?thesis by (simp add: List.map_filter_simps add.assoc)
  qed
qed

text \<open>
  Claim C9. For every input list of polymorphic events, \<open>handleRowChangedEvents\<close> returns
  exactly the rows of the events that are non-nil, have a non-nil row, and have at least one
  column or pre-column, in input order; the returned size is the sum (in 64-bit arithmetic)
  of \<open>ApproximateBytes\<close> over the returned rows; an input of only nil or empty-row events
  yields the empty list and size 0.
\<close>

theorem handleRowChangedEvents_spec:
  "handleRowChangedEvents A evs =
     (List.map_filter emitted_row evs, sum_list (map A (List.map_filter emitted_row evs)))
   \<and> ((\<forall>e \<in> set evs. emitted_row e = None) \<longrightarrow> handleRowChangedEvents A evs = ([], 0))"
proof -
  have "List.map_filter emitted_row evs = []" if "\<forall>e \<in> set evs. emitted_row e = None"
    using that by (induction evs) (simp_all add: List.map_filter_simps)
  then show ?thesis
    by (simp add: handleRowChangedEvents_def handleRowChangedEvents_loop_eq)
qed

theorem handleRowChangedEvents_spec_witness:
  "handleRowChangedEvents (\<lambda>r. 10 + of_nat (length (Columns r)))
     [None, Some \<lparr>pe_StartTs = 1, pe_CRTs = 2, Row = None\<rparr>,
      Some \<lparr>pe_StartTs = 1, pe_CRTs = 2, Row = Some (row_at 1 2)\<rparr>,
      Some \<lparr>pe_StartTs = 3, pe_CRTs = 4, Row = Some ((row_at 3 4)\<lparr>Columns := []\<rparr>)\<rparr>,
      Some \<lparr>pe_StartTs = 5, pe_CRTs = 6, Row = Some (row_at 5 6)\<rparr>]
   = ([row_at 1 2, row_at 5 6], 22)
   \<and> handleRowChangedEvents (\<lambda>r. 10 + of_nat (length (Columns r)))
     [None, Some \<lparr>pe_StartTs = 1, pe_CRTs = 2, Row = None\<rparr>,
      Some \<lparr>pe_StartTs = 3, pe_CRTs = 4, Row = Some ((row_at 3 4)\<lparr>Columns := []\<rparr>)\<rparr>]
   = ([], 0)"
  using handleRowChangedEvents_spec [of "\<lambda>r. 10 + of_nat (length (Columns r))"
      "[None, Some \<lparr>pe_StartTs = 1, pe_CRTs = 2, Row = None\<rparr>,
      Some \<lparr>pe_StartTs = 1, pe_CRTs = 2, Row = Some (row_at 1 2)\<rparr>,
      Some \<lparr>pe_StartTs = 3, pe_CRTs = 4, Row = Some ((row_at 3 4)\<lparr>Columns := []\<rparr>)\<rparr>,
      Some \<lparr>pe_StartTs = 5, pe_CRTs = 6, Row = Some (row_at 5 6)\<rparr>]"]
    handleRowChangedEvents_spec [of "\<lambda>r. 10 + of_nat (length (Columns r))"
      "[None, Some \<lparr>pe_StartTs = 1, pe_CRTs = 2, Row = None\<rparr>,
      Some \<lparr>pe_StartTs = 3, pe_CRTs = 4, Row = Some ((row_at 3 4)\<lparr>Columns := []\<rparr>)\<rparr>]"]
  by (simp add: List.map_filter_simps emitted_row_def row_at_def)

subsection \<open>Resolving an event group\<close>













section \<open>Properties of the generator of fake table ids\<close>


lemma digit_char_inj: "a < 10 \<Longrightarrow> b < 10 \<Longrightarrow> digit_char a = digit_char b \<Longrightarrow> a = b"
proof -
  assume a: "a < 10" and b: "b < 10" and e: "digit_char a = digit_char b"
  have "of_char (char_of (48 + a) :: char) = (48 + a) mod 256" by simp
  moreover have "of_char (char_of (48 + b) :: char) = (48 + b) mod 256" by simp
  ultimately have "(48 + a) mod 256 = (48 + b) mod 256"
    using e by (simp add: digit_char_def)
  with a b show "a = b" by simp
qed

lemma digits10_nonempty: "digits10 n \<noteq> []"
  by (subst digits10.simps) simp

lemma digits10_inj: "digits10 a = digits10 b \<Longrightarrow> a = b"
proof (induction a arbitrary: b rule: digits10.induct)
  case (1 n)
  show ?case
  proof (cases "n < 10")
    case True
    then have n: "digits10 n = [digit_char n]" by (subst digits10.simps) simp
    show ?thesis
    proof (cases "b < 10")
      case b: True
      then have "digits10 b = [digit_char b]" by (subst digits10.simps) simp
      with n "1.prems" True b show ?thesis by (auto dest: digit_char_inj)
    next
      case b: False
      then have "digits10 b = digits10 (b div 10) @ [digit_char (b mod 10)]"
        by (subst digits10.simps) simp
      with n "1.prems" digits10_nonempty [of "b div 10"] show ?thesis by simp
    qed
  next
    case False
    then have n: "digits10 n = digits10 (n div 10) @ [digit_char (n mod 10)]"
      by (subst digits10.simps) simp
    show ?thesis
    proof (cases "b < 10")
      case b: True
      then have "digits10 b = [digit_char b]" by (subst digits10.simps) simp
      with n "1.prems" digits10_nonempty [of "n div 10"] show ?thesis by simp
    next
      case b: False
      then have "digits10 b = digits10 (b div 10) @ [digit_char (b mod 10)]"
        by (subst digits10.simps) simp
      with n "1.prems" have e: "digits10 (n div 10) = digits10 (b div 10)"
        and d: "digit_char (n mod 10) = digit_char (b mod 10)" by simp_all
      have "n div 10 = b div 10" by (rule "1.IH" [OF False e])
      moreover have "n mod 10 = b mod 10" by (rule digit_char_inj [OF _ _ d]) simp_all
      ultimately show ?thesis by (metis div_mult_mod_eq)
    qed
  qed
qed

lemma digits10_no_minus: "hd (digits10 n) \<noteq> CHR ''-''"
proof (induction n rule: digits10.induct)
  case (1 n)
  show ?case
  proof (cases "n < 10")
    case True
    then have "digits10 n = [digit_char n]" by (subst digits10.simps) simp
    moreover have "digit_char n \<noteq> CHR ''-''"
    proof
      assume "digit_char n = CHR ''-''"
      then have "of_char (char_of (48 + n) :: char) = (of_char (CHR ''-'') :: nat)"
        by (simp add: digit_char_def)
      with True show False by simp
    qed
    ultimately show ?thesis by simp
  next
    case False
    then have "digits10 n = digits10 (n div 10) @ [digit_char (n mod 10)]"
      by (subst digits10.simps) simp
    with "1.IH" [OF False] digits10_nonempty [of "n div 10"] show ?thesis by simp
  qed
qed

lemma format_d_inj: "format_d a = format_d b \<Longrightarrow> a = b"
proof -
  assume e: "format_d a = format_d b"
  have m: "CHR ''-'' # xs \<noteq> digits10 n" for xs n
    using digits10_no_minus [of n] by (cases "digits10 n") auto
  have "sint a = sint b"
  proof (cases "sint a < 0")
    case True
    show ?thesis
    proof (cases "sint b < 0")
      case b: True
      with True e have "digits10 (nat (- sint a)) = digits10 (nat (- sint b))"
        by (simp add: format_d_def)
      then have "nat (- sint a) = nat (- sint b)" by (rule digits10_inj)
      with True b show ?thesis by simp
    next
      case b: False
      with True e m show ?thesis by (simp add: format_d_def)
    qed
  next
    case False
    show ?thesis
    proof (cases "sint b < 0")
      case b: True
      with False e m [of "digits10 (nat (- sint b))" "nat (sint a)"] show ?thesis
        by (simp add: format_d_def)
    next
      case b: False
      with False e have "digits10 (nat (sint a)) = digits10 (nat (sint b))"
        by (simp add: format_d_def)
      then have "nat (sint a) = nat (sint b)" by (rule digits10_inj)
      with False b show ?thesis by simp
    qed
  qed
  then show "a = b" by (simp add: signed_word_eqI)
qed

lemma fakeTableKey_inj:
  assumes Q: "QuoteSchema_unambiguous Q"
    and e: "fakeTableKey Q s t p = fakeTableKey Q s' t' p'"
  shows "s = s' \<and> t = t' \<and> p = p'"
proof -
  define x where "x = (if p \<noteq> 0 then ''.`'' @ format_d p @ ''`'' else [])"
  define y where "y = (if p' \<noteq> 0 then ''.`'' @ format_d p' @ ''`'' else [])"
  have k: "fakeTableKey Q s t p = Q s t @ x" "fakeTableKey Q s' t' p' = Q s' t' @ y"
    by (simp_all add: fakeTableKey_def x_def y_def)
  have hx: "x = [] \<or> hd x \<noteq> CHR ''`''" and hy: "y = [] \<or> hd y \<noteq> CHR ''`''"
    by (simp_all add: x_def y_def)
  from e k have eq: "Q s t @ x = Q s' t' @ y" by simp
  with Q hx hy have st: "s = s' \<and> t = t'"
    unfolding QuoteSchema_unambiguous_def by blast
  with eq have xy: "x = y" by simp
  have "p = p'"
  proof (cases "p = 0")
    case True
    with xy show ?thesis by (auto simp: x_def y_def split: if_splits)
  next
    case False
    with xy have "p' \<noteq> 0" by (auto simp: x_def y_def split: if_splits)
    with False xy have "format_d p = format_d p'" by (simp add: x_def y_def)
    then show ?thesis by (rule format_d_inj)
  qed
  with st show ?thesis by simp
qed


lemma EscapeName_closing:
  assumes "EscapeName n @ CHR ''`'' # r = EscapeName n' @ CHR ''`'' # r'"
    and "r = [] \<or> hd r \<noteq> CHR ''`''" and "r' = [] \<or> hd r' \<noteq> CHR ''`''"
  shows "n = n' \<and> r = r'"
  using assms
proof (induction n arbitrary: n')
  case Nil
  show ?case
  proof (cases n')
    case Nil
    with Nil.prems show ?thesis by simp
  next
    case (Cons c cs)
    show ?thesis
    proof (cases "c = CHR ''`''")
      case True
      with Cons Nil.prems(1) have "r = CHR ''`'' # EscapeName cs @ CHR ''`'' # r'" by simp
      with Nil.prems(2) show ?thesis by simp
    next
      case False
      with Cons Nil.prems(1) show ?thesis by simp
    qed
  qed
next
  case (Cons c cs)
  show ?case
  proof (cases n')
    case Nil
    show ?thesis
    proof (cases "c = CHR ''`''")
      case True
      with Nil Cons.prems(1) have "r' = CHR ''`'' # EscapeName cs @ CHR ''`'' # r" by simp
      with Cons.prems(3) show ?thesis by simp
    next
      case False
      with Nil Cons.prems(1) show ?thesis by simp
    qed
  next
    case (Cons c' cs')
    have "c = c' \<and> EscapeName cs @ CHR ''`'' # r = EscapeName cs' @ CHR ''`'' # r'"
    proof (cases "c = CHR ''`''")
      case True
      show ?thesis
      proof (cases "c' = CHR ''`''")
        case c': True
        with True Cons Cons.prems(1) show ?thesis by simp
      next
        case c': False
        with True Cons Cons.prems(1) show ?thesis by simp
      qed
    next
      case False
      show ?thesis
      proof (cases "c' = CHR ''`''")
        case c': True
        with False Cons Cons.prems(1) show ?thesis by simp
      next
        case c': False
        with False Cons Cons.prems(1) show ?thesis by simp
      qed
    qed
    with Cons.IH [of cs'] Cons.prems(2,3) Cons show ?thesis by simp
  qed
qed

lemma backtick_QuoteSchema_unambiguous: "QuoteSchema_unambiguous backtick_QuoteSchema"
  unfolding QuoteSchema_unambiguous_def
proof (intro allI impI)
  fix s t x s' t' y
  assume h: "backtick_QuoteSchema s t @ x = backtick_QuoteSchema s' t' @ y
    \<and> (x = [] \<or> hd x \<noteq> CHR ''`'') \<and> (y = [] \<or> hd y \<noteq> CHR ''`'')"
  let ?r = "CHR ''.'' # CHR ''`'' # EscapeName t @ CHR ''`'' # x"
  let ?r' = "CHR ''.'' # CHR ''`'' # EscapeName t' @ CHR ''`'' # y"
  from h have "EscapeName s @ CHR ''`'' # ?r = EscapeName s' @ CHR ''`'' # ?r'"
    by (simp add: backtick_QuoteSchema_def)
  then have 1: "s = s' \<and> ?r = ?r'"
    by (rule EscapeName_closing) simp_all
  then have "EscapeName t @ CHR ''`'' # x = EscapeName t' @ CHR ''`'' # y" by simp
  then have "t = t' \<and> x = y"
    using h by (intro EscapeName_closing) simp_all
  with 1 show "s = s' \<and> t = t'" by simp
qed

lemma unat_Suc_word:
  fixes w :: "64 word"
  assumes "unat w < 2 ^ 63"
  shows "unat (w + 1) = unat w + 1"
proof -
  have "unat w + unat (1 :: 64 word) < 2 ^ LENGTH(64)" using assms by simp
  then have "unat (w + 1) = unat w + unat (1 :: 64 word)"
    by (simp only: unat_add_lem [THEN iffD1])
  then show ?thesis by simp
qed

lemma generateFakeTableID_step:
  assumes inv: "generator_inv n g" and n: "n < 2 ^ 63"
    and r: "generateFakeTableID Q g s t p = (v, g')"
  shows "generator_inv (Suc n) g'"
    and "tableIDs g \<subseteq>\<^sub>m tableIDs g'"
    and "tableIDs g' (fakeTableKey Q s t p) = Some v"
proof -
  let ?k = "fakeTableKey Q s t p"
  have c: "unat (currentTableID g) \<le> n"
    and b: "\<And>k v. tableIDs g k = Some v \<Longrightarrow> 0 < unat v \<and> unat v \<le> unat (currentTableID g)"
    and i: "\<And>k k' v. tableIDs g k = Some v \<Longrightarrow> tableIDs g k' = Some v \<Longrightarrow> k = k'"
    using inv unfolding generator_inv_def by blast+
  show "generator_inv (Suc n) g'" "tableIDs g \<subseteq>\<^sub>m tableIDs g'" "tableIDs g' ?k = Some v"
  proof (atomize (full), cases "tableIDs g ?k")
    case (Some w)
    with r have "g' = g" "v = w" by (simp_all add: generateFakeTableID_def Let_def)
    with Some inv show "generator_inv (Suc n) g' \<and> tableIDs g \<subseteq>\<^sub>m tableIDs g'
        \<and> tableIDs g' ?k = Some v"
      by (auto simp: generator_inv_def)
  next
    case None
    let ?c = "currentTableID g + 1"
    from None r have g': "tableIDs g' = (tableIDs g)(?k \<mapsto> ?c)" "currentTableID g' = ?c"
      and v: "v = ?c"
      by (auto simp: generateFakeTableID_def Let_def)
    have u: "unat ?c = unat (currentTableID g) + 1"
      using c n by (intro unat_Suc_word) simp
    have 1: "unat (currentTableID g') \<le> Suc n" using u c g' by simp
    have 2: "0 < unat w \<and> unat w \<le> unat (currentTableID g')" if "tableIDs g' k = Some w" for k w
    proof (cases "k = ?k")
      case True
      with that g' have "w = ?c" by simp
      with u g' show ?thesis by simp
    next
      case False
      with that g' have "tableIDs g k = Some w" by simp
      from b [OF this] u g' show ?thesis by simp
    qed
    have old: "w \<noteq> ?c" if "tableIDs g k = Some w" for k w
    proof
      assume "w = ?c"
      with b [OF that] u show False by simp
    qed
    have 3: "k = k'" if "tableIDs g' k = Some w" "tableIDs g' k' = Some w" for k k' w
    proof (cases "k = ?k")
      case True
      with that(1) g' have w: "w = ?c" by simp
      show ?thesis
      proof (cases "k' = ?k")
        case k': True
        with True show ?thesis by simp
      next
        case k': False
        with that(2) g' have "tableIDs g k' = Some w" by simp
        from old [OF this] w show ?thesis by simp
      qed
    next
      case False
      with that(1) g' have kw: "tableIDs g k = Some w" by simp
      show ?thesis
      proof (cases "k' = ?k")
        case k': True
        with that(2) g' have "w = ?c" by simp
        with old [OF kw] show ?thesis by simp
      next
        case k': False
        with that(2) g' have "tableIDs g k' = Some w" by simp
        with kw show ?thesis by (rule i)
      qed
    qed
    have 4: "tableIDs g \<subseteq>\<^sub>m tableIDs g'"
      using None g' by (auto simp: map_le_def dom_def)
    have 5: "generator_inv (Suc n) g'"
      unfolding generator_inv_def using 1 2 3 by blast
    have 6: "tableIDs g' ?k = Some v" using g' v by simp
    from 4 5 6
    show "generator_inv (Suc n) g' \<and> tableIDs g \<subseteq>\<^sub>m tableIDs g' \<and> tableIDs g' ?k = Some v"
      by simp
  qed
qed


lemma generateFakeTableID_again:
  "generateFakeTableID Q (snd (generateFakeTableID Q g s t p)) s t p
     = generateFakeTableID Q g s t p"
  by (cases "tableIDs g (fakeTableKey Q s t p)")
    (simp_all add: generateFakeTableID_def Let_def)

lemma generateFakeTableIDs_run:
  assumes "generator_inv n g" and "n + length rs \<le> 2 ^ 63"
  shows "generator_inv (n + length rs) (snd (generateFakeTableIDs Q g rs))
    \<and> tableIDs g \<subseteq>\<^sub>m tableIDs (snd (generateFakeTableIDs Q g rs))
    \<and> length (fst (generateFakeTableIDs Q g rs)) = length rs
    \<and> (\<forall>i<length rs.
          tableIDs (snd (generateFakeTableIDs Q g rs))
            (fakeTableKey Q (fst (rs ! i)) (fst (snd (rs ! i))) (snd (snd (rs ! i))))
          = Some (fst (generateFakeTableIDs Q g rs) ! i))"
  using assms
proof (induction rs arbitrary: n g)
  case Nil
  then show ?case by simp
next
  case (Cons r rs)
  let ?a = "generateFakeTableID Q g (fst r) (fst (snd r)) (snd (snd r))"
  let ?k = "fakeTableKey Q (fst r) (fst (snd r)) (snd (snd r))"
  let ?b = "generateFakeTableIDs Q (snd ?a) rs"
  have n: "n < 2 ^ 63" using Cons.prems(2) by simp
  have a: "?a = (fst ?a, snd ?a)" by simp
  note st = generateFakeTableID_step [OF Cons.prems(1) n a]
  have "Suc n + length rs \<le> 2 ^ 63" using Cons.prems(2) by simp
  from Cons.IH [OF st(1) this]
  have inv: "generator_inv (Suc n + length rs) (snd ?b)"
    and le: "tableIDs (snd ?a) \<subseteq>\<^sub>m tableIDs (snd ?b)"
    and len: "length (fst ?b) = length rs"
    and ks: "\<forall>i<length rs. tableIDs (snd ?b)
        (fakeTableKey Q (fst (rs ! i)) (fst (snd (rs ! i))) (snd (snd (rs ! i))))
        = Some (fst ?b ! i)"
    by simp_all
  have e: "generateFakeTableIDs Q g (r # rs) = (fst ?a # fst ?b, snd ?b)"
    by (simp add: Let_def)
  have k0: "tableIDs (snd ?b) ?k = Some (fst ?a)"
    using st(3) le by (auto simp: map_le_def dom_def)
  have 1: "generator_inv (n + length (r # rs)) (snd (generateFakeTableIDs Q g (r # rs)))"
    unfolding e using inv by simp
  have 2: "tableIDs g \<subseteq>\<^sub>m tableIDs (snd (generateFakeTableIDs Q g (r # rs)))"
    unfolding e using st(2) le by (simp add: map_le_trans)
  have 3: "length (fst (generateFakeTableIDs Q g (r # rs))) = length (r # rs)"
    unfolding e using len by simp
  have 4: "tableIDs (snd (generateFakeTableIDs Q g (r # rs)))
        (fakeTableKey Q (fst ((r # rs) ! i)) (fst (snd ((r # rs) ! i))) (snd (snd ((r # rs) ! i))))
        = Some (fst (generateFakeTableIDs Q g (r # rs)) ! i)"
    if "i < length (r # rs)" for i
  proof (cases i)
    case 0
    with k0 show ?thesis unfolding e by simp
  next
    case (Suc j)
    with that have "j < length rs" by simp
    with ks Suc show ?thesis unfolding e by simp
  qed
  from 1 2 3 4 show ?case by blast
qed

lemma newFakeTableIDGenerator_inv: "generator_inv 0 newFakeTableIDGenerator"
  by (simp add: generator_inv_def newFakeTableIDGenerator_def)

lemma sint_positive:
  fixes v :: "64 word"
  assumes "0 < unat v" "unat v < 2 ^ 63"
  shows "0 <s v"
proof -
  have "int (unat v) < int (2 ^ 63)" using assms(2) by (simp only: of_nat_less_iff)
  then have u: "uint v < 2 ^ 63" by simp
  have "sint v = signed_take_bit 63 (uint v)" by (simp add: sint_uint)
  also have "\<dots> = uint v"
  proof (rule signed_take_bit_int_eq_self)
    show "- (2 ^ 63) \<le> uint v" by (rule order_trans [of _ 0]) simp_all
    show "uint v < 2 ^ 63" by (rule u)
  qed
  finally have "sint v = uint v" .
  moreover have "int 0 < int (unat v)" using assms(1) by (simp only: of_nat_less_iff)
  then have "0 < uint v" by simp
  ultimately show ?thesis by (simp add: word_sless_alt)
qed

text \<open>
  Claim C10. Starting from the new generator, for every sequence of fewer than \<open>2 ^ 63\<close>
  calls of \<open>generateFakeTableID\<close> (the counter is an \<open>int64\<close>) and a quoting of names that
  is unambiguous: two calls return the same id exactly when their (schema, table,
  partition) triples are equal, so distinct triples (partition 0 being the table without
  partition) receive distinct ids; every id is strictly positive; and in the state reached,
  calling again with the triple of a call returns the same id and leaves the generator
  unchanged.
\<close>

theorem generateFakeTableID_idempotent_injective:
  assumes Q: "QuoteSchema_unambiguous Q" and len: "length rs < 2 ^ 63"
  shows "(\<forall>i<length rs. \<forall>j<length rs.
            (fst (generateFakeTableIDs Q newFakeTableIDGenerator rs) ! i
               = fst (generateFakeTableIDs Q newFakeTableIDGenerator rs) ! j)
            = (rs ! i = rs ! j))
    \<and> (\<forall>i<length rs. 0 <s fst (generateFakeTableIDs Q newFakeTableIDGenerator rs) ! i)
    \<and> (\<forall>s t p.
          generateFakeTableID Q
            (snd (generateFakeTableID Q
               (snd (generateFakeTableIDs Q newFakeTableIDGenerator rs)) s t p)) s t p
          = generateFakeTableID Q
              (snd (generateFakeTableIDs Q newFakeTableIDGenerator rs)) s t p)"
proof -
  let ?G = "generateFakeTableIDs Q newFakeTableIDGenerator rs"
  let ?key = "\<lambda>r. fakeTableKey Q (fst r) (fst (snd r)) (snd (snd r))"
  have "0 + length rs \<le> 2 ^ 63" using len by simp
  from generateFakeTableIDs_run [OF newFakeTableIDGenerator_inv this, of Q]
  have inv: "generator_inv (length rs) (snd ?G)"
    and ks: "\<And>i. i < length rs \<Longrightarrow> tableIDs (snd ?G) (?key (rs ! i)) = Some (fst ?G ! i)"
    by simp_all
  have c: "unat (currentTableID (snd ?G)) \<le> length rs"
    and b: "\<And>k v. tableIDs (snd ?G) k = Some v
        \<Longrightarrow> 0 < unat v \<and> unat v \<le> unat (currentTableID (snd ?G))"
    and inj: "\<And>k k' v. tableIDs (snd ?G) k = Some v \<Longrightarrow> tableIDs (snd ?G) k' = Some v
        \<Longrightarrow> k = k'"
    using inv unfolding generator_inv_def by blast+
  have keq: "(?key r = ?key r') = (r = r')" for r r'
  proof
    assume "?key r = ?key r'"
    from fakeTableKey_inj [OF Q this] show "r = r'" by (simp add: prod_eq_iff)
  qed simp
  have 1: "(fst ?G ! i = fst ?G ! j) = (rs ! i = rs ! j)"
    if "i < length rs" "j < length rs" for i j
  proof
    assume "fst ?G ! i = fst ?G ! j"
    with ks [OF that(1)] ks [OF that(2)] have "?key (rs ! i) = ?key (rs ! j)"
      by (intro inj) simp_all
    then show "rs ! i = rs ! j" by (simp only: keq)
  next
    assume "rs ! i = rs ! j"
    with ks [OF that(1)] ks [OF that(2)] show "fst ?G ! i = fst ?G ! j" by simp
  qed
  have 2: "0 <s fst ?G ! i" if "i < length rs" for i
  proof -
    from b [OF ks [OF that]] c len
    have "0 < unat (fst ?G ! i)" "unat (fst ?G ! i) < 2 ^ 63" by simp_all
    then show ?thesis by (rule sint_positive)
  qed
  from 1 2 show ?thesis by (simp add: generateFakeTableID_again)
qed

theorem generateFakeTableID_idempotent_injective_witness:
  "QuoteSchema_unambiguous backtick_QuoteSchema
   \<and> fst (generateFakeTableIDs backtick_QuoteSchema newFakeTableIDGenerator
        [(''test'', ''t1'', 0), (''test'', ''t2'', 0), (''test'', ''t1'', 0), (''test'', ''t1'', 7)])
     = [1, 2, 1, 3]"
proof -
  let ?rs = "[(''test'', ''t1'', 0 :: 64 word), (''test'', ''t2'', 0), (''test'', ''t1'', 0),
      (''test'', ''t1'', 7)]"
  let ?ids = "fst (generateFakeTableIDs backtick_QuoteSchema newFakeTableIDGenerator ?rs)"
  have l: "length ?rs < 2 ^ 63" by simp
  have v: "?ids = [1, 2, 1, 3]"
    by (simp add: generateFakeTableID_def newFakeTableIDGenerator_def fakeTableKey_def
        backtick_QuoteSchema_def Let_def)
  note T = generateFakeTableID_idempotent_injective [OF backtick_QuoteSchema_unambiguous l]
  from T have "?ids ! 0 = ?ids ! 2" by simp
  with v backtick_QuoteSchema_unambiguous show ?thesis by simp
qed

section \<open>Properties of the flush and of the driver loop\<close>


lemma flushRange_keeps:
  "flushRange I rts es m f = Inr res \<Longrightarrow> k \<notin> fst ` set es \<Longrightarrow> fst res k = m k"
proof (induction es arbitrary: m f res)
  case Nil
  then show ?case by auto
next
  case (Cons kv rest)
  from Cons.prems(1) obtain s where s: "m (fst kv) = Some s"
    by (cases "m (fst kv)") (simp_all add: Let_def)
  let ?r = "UpdateResolvedTs I s rts"
  let ?m1 = "m(fst kv \<mapsto> fst ?r)"
  from Cons.prems(2) have k: "k \<noteq> fst kv" "k \<notin> fst ` set rest" by auto
  show ?case
  proof (cases "snd ?r")
    case (Some err)
    with Cons.prems(1) s have "fst res = ?m1" by (auto simp: Let_def)
    with k show ?thesis by simp
  next
    case None
    let ?f = "if \<not> EqualOrGreater (GetCheckpointTs I (fst ?r)) rts then False else f"
    from Cons.prems(1) s None obtain res' where
      r: "flushRange I rts rest ?m1 ?f = Inr res'" and e: "fst res = fst res'"
      by (cases "flushRange I rts rest ?m1 ?f") (auto simp: Let_def)
    from Cons.IH [OF r k(2)] e k(1) show ?thesis by simp
  qed
qed

lemma flushRange_calls:
  assumes "flushRange I rts es m f = Inr res"
    and "\<forall>c \<in> set (snd (snd res)). snd (snd c) = None"
  shows "snd (snd res) = map (\<lambda>kv. (fst kv, rts, None)) es"
  using assms
proof (induction es arbitrary: m f res)
  case Nil
  then show ?case by auto
next
  case (Cons kv rest)
  from Cons.prems(1) obtain s where s: "m (fst kv) = Some s"
    by (cases "m (fst kv)") (simp_all add: Let_def)
  let ?r = "UpdateResolvedTs I s rts"
  let ?m1 = "m(fst kv \<mapsto> fst ?r)"
  let ?f = "if \<not> EqualOrGreater (GetCheckpointTs I (fst ?r)) rts then False else f"
  have None: "snd ?r = None"
  proof (cases "snd ?r")
    case (Some err)
    with Cons.prems(1) s have "snd (snd res) = [(fst kv, rts, Some err)]" by (auto simp: Let_def)
    with Cons.prems(2) show ?thesis by simp
  qed
  from Cons.prems(1) s None obtain res' where
    r: "flushRange I rts rest ?m1 ?f = Inr res'"
    and e: "res = (fst res', fst (snd res'), (fst kv, rts, None) # snd (snd res'))"
    by (cases "flushRange I rts rest ?m1 ?f") (auto simp: Let_def)
  have "\<forall>c \<in> set (snd (snd res')). snd (snd c) = None" using Cons.prems(2) e by simp
  from Cons.IH [OF r this] e show ?case by simp
qed

lemma flushRange_flushed:
  assumes "flushRange I rts es m f = Inr res" and "fst (snd res)"
    and "\<forall>c \<in> set (snd (snd res)). snd (snd c) = None"
  shows "f \<and> snd (snd res) = map (\<lambda>kv. (fst kv, rts, None)) es
    \<and> (\<forall>kv \<in> set es. \<exists>s. fst res (fst kv) = Some s \<and> EqualOrGreater (GetCheckpointTs I s) rts)"
  using assms
proof (induction es arbitrary: m f res)
  case Nil
  then show ?case by auto
next
  case (Cons kv rest)
  from Cons.prems(1) obtain s where s: "m (fst kv) = Some s"
    by (cases "m (fst kv)") (simp_all add: Let_def)
  let ?r = "UpdateResolvedTs I s rts"
  let ?m1 = "m(fst kv \<mapsto> fst ?r)"
  let ?f = "if \<not> EqualOrGreater (GetCheckpointTs I (fst ?r)) rts then False else f"
  have None: "snd ?r = None"
  proof (cases "snd ?r")
    case (Some err)
    with Cons.prems(1) s have "snd (snd res) = [(fst kv, rts, Some err)]" by (auto simp: Let_def)
    with Cons.prems(3) show ?thesis by simp
  qed
  from Cons.prems(1) s None obtain res' where
    r: "flushRange I rts rest ?m1 ?f = Inr res'"
    and e: "res = (fst res', fst (snd res'), (fst kv, rts, None) # snd (snd res'))"
    by (cases "flushRange I rts rest ?m1 ?f") (auto simp: Let_def)
  have p2: "fst (snd res')" using Cons.prems(2) e by simp
  have p3: "\<forall>c \<in> set (snd (snd res')). snd (snd c) = None" using Cons.prems(3) e by simp
  from Cons.IH [OF r p2 p3]
  have f': "?f" and calls: "snd (snd res') = map (\<lambda>kv. (fst kv, rts, None)) rest"
    and all: "\<forall>kv \<in> set rest. \<exists>s. fst res' (fst kv) = Some s
        \<and> EqualOrGreater (GetCheckpointTs I s) rts"
    by blast+
  from f' have f: "f" and ok: "EqualOrGreater (GetCheckpointTs I (fst ?r)) rts"
    by (cases "EqualOrGreater (GetCheckpointTs I (fst ?r)) rts"; simp)+
  have here: "\<exists>s. fst res' (fst kv) = Some s \<and> EqualOrGreater (GetCheckpointTs I s) rts"
  proof (cases "fst kv \<in> fst ` set rest")
    case True
    with all show ?thesis by auto
  next
    case False
    from flushRange_keeps [OF r False] ok show ?thesis by simp
  qed
  from f calls all here e show ?case by simp
qed

text \<open>
  Claim C2, amended. When a flush of a partition to a target resolved-ts returns without
  error and none of its calls of \<open>UpdateResolvedTs\<close> failed, then it made at least one
  pass; in each pass it called \<open>UpdateResolvedTs\<close> with the target resolved-ts itself, once
  for each live (table-id, last-committed-ts) entry; and at its return every entry's table
  sink has a checkpoint-ts equal to or greater than the target.
\<close>

theorem syncFlushRowChangedEvents_spec:
  assumes "syncFlushRowChangedEvents n I ctx k sink ts = Some (FlushReturn None sink' k' calls)"
    and "\<forall>c \<in> set calls. snd (snd c) = None"
  shows "k < k' \<and> calls = concat (replicate (k' - k) (flush_calls sink ts))
    \<and> tablesCommitTsMap sink' = tablesCommitTsMap sink
    \<and> (\<forall>kv \<in> set (tablesCommitTsMap sink). \<exists>s. tableSinksMap sink' (fst kv) = Some s
          \<and> EqualOrGreater (GetCheckpointTs I s) (NewResolvedTs ts))"
  using assms
proof (induction n arbitrary: k sink calls)
  case 0
  then show ?case by simp
next
  case (Suc n)
  let ?rts = "NewResolvedTs ts"
  from Suc.prems(1) have nc: "\<not> ctx k" by (auto split: if_splits)
  from Suc.prems(1) nc obtain res where
    r: "flushRange I ?rts (tablesCommitTsMap sink) (tableSinksMap sink) True = Inr res"
    by (cases "flushRange I ?rts (tablesCommitTsMap sink) (tableSinksMap sink) True") auto
  let ?sink1 = "sink\<lparr>tableSinksMap := fst res\<rparr>"
  show ?case
  proof (cases "fst (snd res)")
    case True
    with Suc.prems(1) nc r have e: "sink' = ?sink1" "k' = Suc k" "calls = snd (snd res)"
      by (auto simp: Let_def)
    from flushRange_flushed [OF r True] Suc.prems(2) e
    have "snd (snd res) = map (\<lambda>kv. (fst kv, ?rts, None)) (tablesCommitTsMap sink)"
      and "\<forall>kv \<in> set (tablesCommitTsMap sink). \<exists>s. fst res (fst kv) = Some s
        \<and> EqualOrGreater (GetCheckpointTs I s) ?rts"
      by simp_all
    with e show ?thesis by (simp add: flush_calls_def)
  next
    case False
    with Suc.prems(1) nc r obtain calls2 where
      rec: "syncFlushRowChangedEvents n I ctx (Suc k) ?sink1 ts
          = Some (FlushReturn None sink' k' calls2)"
      and c: "calls = snd (snd res) @ calls2"
      by (auto simp: Let_def split: option.splits flush_result.splits)
    have c2: "\<forall>c \<in> set calls2. snd (snd c) = None"
      and c1: "\<forall>c \<in> set (snd (snd res)). snd (snd c) = None"
      using Suc.prems(2) c by simp_all
    from Suc.IH [OF rec c2]
    have k: "Suc k < k'"
      and cs: "calls2 = concat (replicate (k' - Suc k) (flush_calls ?sink1 ts))"
      and t: "tablesCommitTsMap sink' = tablesCommitTsMap ?sink1"
      and all: "\<forall>kv \<in> set (tablesCommitTsMap ?sink1). \<exists>s. tableSinksMap sink' (fst kv) = Some s
          \<and> EqualOrGreater (GetCheckpointTs I s) ?rts"
      by simp_all
    have first: "snd (snd res) = flush_calls sink ts"
      using flushRange_calls [OF r c1] by (simp add: flush_calls_def)
    have "k' - k = Suc (k' - Suc k)" using k by simp
    with cs first c have "calls = concat (replicate (k' - k) (flush_calls sink ts))"
      by (simp add: flush_calls_def)
    with k t all show ?thesis by simp
  qed
qed

end
